theory Spec2Isabelle
  imports Main
begin

section \<open>Data model of the nostr content retrieval system\<close>

text \<open>
  The development follows the class \<open>NostrSystem\<close>: a pool of relay connections
  (\<open>Sockets\<close>), a registry of queries (\<open>Queries\<close>), a list of state hooks and a published
  snapshot.  The classes \<open>Query\<close>, \<open>Connection\<close>, \<open>RequestBuilder\<close> and \<open>NoteStore\<close> are used
  by \<open>NostrSystem\<close> but defined elsewhere; the fields that \<open>NostrSystem\<close> reads and assigns
  are fields of the model, and every method call into those classes whose body is not
  available is recorded, with its receiver and arguments, in the list \<open>calls\<close>.
\<close>

subsection \<open>Filters, events, stores\<close>

text \<open>
  Modelled from the spec: the type declaration \<open>RawReqFilter\<close> is missing; the spec describes a
  filter as an immutable structured predicate (kind, authors, tags, time range, limit).
  \<open>NostrSystem\<close> never inspects a filter.
\<close>

record RawReqFilter =
  kinds :: "nat list"
  authors :: "string list"
  tags :: "(string \<times> string list) list"
  since :: "int option"
  until :: "int option"
  limit :: "nat option"

text \<open>
  Modelled from the spec: the type declaration \<open>RawEvent\<close> / \<open>TaggedRawEvent\<close> is missing; the
  fields are those the repository reads (\<open>pubkey\<close>, \<open>created_at\<close>, \<open>content\<close>) and the
  event identity.
\<close>

record RawEvent =
  ev_id :: string
  pubkey :: string
  created_at :: int
  content :: string

text \<open>
  Modelled from the spec: the class \<open>NoteStore\<close> is missing; the spec gives every store a
  \<open>loading\<close> flag that the registry sets, the only field \<open>NostrSystem\<close> assigns.  A store
  is shared by reference between a query, its continuations and the caller, so stores live
  in an explicit heap indexed by addresses.
\<close>

record NoteStore =
  loading :: bool

subsection \<open>Connections\<close>

record RelaySettings =
  read_s :: bool
  write_s :: bool

text \<open>
  Modelled from the spec: the class \<open>Connection\<close> is missing; its attributes are the address,
  the read/write settings and the ephemeral flag, which the constructor receives.
\<close>

record Connection =
  Address :: string
  Settings :: RelaySettings
  Ephemeral :: bool

definition new_Connection :: "string \<Rightarrow> RelaySettings \<Rightarrow> bool \<Rightarrow> Connection" where
  "new_Connection addr opts eph = \<lparr>Address = addr, Settings = opts, Ephemeral = eph\<rparr>"

subsection \<open>Queries\<close>

text \<open>
  Modelled from the spec: the class \<open>Query\<close> is missing.  Its attributes are the id, the current
  filter set, the ordered list of continuation sub-queries, the optional \<open>closingAt\<close>
  timestamp, the \<open>leaveOpen\<close> flag, the optional relay allow-list and the reference to its
  store (\<open>feed\<close>, an address in the store heap).
\<close>

datatype Query = MkQuery
  (id_q: string)
  (filters: "RawReqFilter list")
  (feed: nat)
  (relays: "string list option")
  (leaveOpen: bool)
  (closingAt: "int option")
  (subQueries: "Query list")

text \<open>
  Modelled from the spec: the constructor \<open>new Query(id, filters, feed)\<close> is missing; a new query
  is open (no \<open>closingAt\<close>), not left open, has no allow-list and no continuation.
\<close>

definition new_Query :: "string \<Rightarrow> RawReqFilter list \<Rightarrow> nat \<Rightarrow> Query" where
  "new_Query i fs st = MkQuery i fs st None False None []"

text \<open>
  Modelled from the spec: \<open>Query.cancel\<close>, \<open>Query.unCancel\<close> and the getter \<open>closing\<close> are
  missing.  The spec: \<open>cancel(id)\<close> sets \<open>closingAt = now\<close> unless \<open>leaveOpen\<close> is set;
  \<open>uncancel()\<close> reverts Pending-Close to Open; Open is the state with no \<open>closingAt\<close>.
\<close>

definition cancel :: "int \<Rightarrow> Query \<Rightarrow> Query" where
  "cancel now q =
     (if leaveOpen q then q
      else MkQuery (id_q q) (filters q) (feed q) (relays q) (leaveOpen q) (Some now) (subQueries q))"

definition unCancel :: "Query \<Rightarrow> Query" where
  "unCancel q = MkQuery (id_q q) (filters q) (feed q) (relays q) (leaveOpen q) None (subQueries q)"

definition closing :: "Query \<Rightarrow> bool" where
  "closing q = (closingAt q \<noteq> None)"

subsection \<open>Requests\<close>

record RequestBuilderOptions =
  opt_leaveOpen :: "bool option"
  opt_relays :: "string list option"
  opt_skipDiff :: "bool option"

text \<open>
  Modelled from the spec: the class \<open>RequestBuilder\<close> is missing; the request contract is
  \<open>{id, filters, options: {leaveOpen?, relays?, skipDiff?}}\<close>.  The field \<open>build\<close> is the
  filter list that \<open>req.build()\<close> returns.
\<close>

record RequestBuilder =
  rb_id :: string
  build :: "RawReqFilter list"
  options :: "RequestBuilderOptions option"

text \<open>\<open>req.options?.skipDiff\<close> and \<open>rb.options?.leaveOpen\<close> as JavaScript truth values.\<close>

definition skipDiff :: "RequestBuilder \<Rightarrow> bool" where
  "skipDiff req = (case options req of None \<Rightarrow> False | Some opt \<Rightarrow> opt_skipDiff opt = Some True)"

definition wants_leaveOpen :: "RequestBuilder \<Rightarrow> bool" where
  "wants_leaveOpen req =
     (case options req of None \<Rightarrow> False | Some opt \<Rightarrow> opt_leaveOpen opt = Some True)"

definition wanted_relays :: "RequestBuilder \<Rightarrow> string list option" where
  "wanted_relays req = (case options req of None \<Rightarrow> None | Some opt \<Rightarrow> opt_relays opt)"

text \<open>
  Modelled from the spec: \<open>diffFilters\<close> is missing.  The spec: comparison is structural equality
  over the ordered filter list; any difference in filter count, field values or order counts
  as changed.
\<close>

record FilterDiff =
  changed :: bool

definition diffFilters :: "RawReqFilter list \<Rightarrow> RawReqFilter list \<Rightarrow> FilterDiff" where
  "diffFilters a b = \<lparr>changed = (a \<noteq> b)\<rparr>"

subsection \<open>Snapshot, hooks, system state\<close>

record SnapshotQuery =
  snap_id :: string
  snap_filters :: "RawReqFilter list"
  subFilters :: "RawReqFilter list"
  snap_closing :: bool

record SystemSnapshot =
  queries :: "SnapshotQuery list"

text \<open>
  A state hook is a closure \<open>() => void\<close>.  It is compared by reference (\<open>a === cb\<close>), so it
  has an identity; of its body the model keeps what touches the system: the release
  functions (returned by \<open>hook\<close>) that it invokes, named by the identity of the callback
  they were returned for.
\<close>

record HookSystemSnapshot =
  cb_id :: nat
  cb_releases :: "nat list"

text \<open>Method calls into code outside \<open>NostrSystem\<close>, in the order they are made.\<close>

datatype call =
    NewConnection Connection
  | Connect Connection
  | Close Connection
  | SendToRelay Query Connection
  | SendClose Query
  | Eose Query string Connection
  | SendAsync Connection RawEvent
  | FeedAdd nat RawEvent
  | Notify nat
  | ConsoleError
  | ConsoleDebug string

record NostrSystem =
  Sockets :: "(string \<times> Connection) list"
  Queries :: "(string \<times> Query) list"
  stateHooks :: "HookSystemSnapshot list"
  snapshot :: SystemSnapshot
  stores :: "nat \<Rightarrow> NoteStore"
  nextStore :: nat
  calls :: "call list"

subsection \<open>JavaScript \<open>Map\<close>: insertion-ordered, one entry per key\<close>

definition Map_get :: "('k \<times> 'v) list \<Rightarrow> 'k \<Rightarrow> 'v option" where
  "Map_get m k = map_of m k"

definition Map_has :: "('k \<times> 'v) list \<Rightarrow> 'k \<Rightarrow> bool" where
  "Map_has m k = (map_of m k \<noteq> None)"

fun Map_set :: "('k \<times> 'v) list \<Rightarrow> 'k \<Rightarrow> 'v \<Rightarrow> ('k \<times> 'v) list" where
  "Map_set [] k v = [(k, v)]"
| "Map_set ((k', v') # m) k v = (if k' = k then (k, v) # m else (k', v') # Map_set m k v)"

definition Map_delete :: "('k \<times> 'v) list \<Rightarrow> 'k \<Rightarrow> ('k \<times> 'v) list" where
  "Map_delete m k = filter (\<lambda>e. fst e \<noteq> k) m"

section \<open>Sub-id routing\<close>

text \<open>
  \<open>GetQuery\<close> tests the subscription id against the regular expression \<open>/-\d+$/\<close> and, on a
  match, keeps what \<open>split\<close> returns before the match.  \<open>subFilterId_here s\<close> says that the
  expression matches all of \<open>s\<close>: a dash, then one or more decimal digits, then the end.
  The match that \<open>match\<close> and \<open>split\<close> find is the leftmost one.
\<close>

definition is_digit :: "char \<Rightarrow> bool" where
  "is_digit c = (c \<in> set ''0123456789'')"

definition subFilterId_here :: "string \<Rightarrow> bool" where
  "subFilterId_here s =
     (case s of [] \<Rightarrow> False | c # ds \<Rightarrow> c = CHR ''-'' \<and> ds \<noteq> [] \<and> list_all is_digit ds)"

fun split_subFilterId :: "string \<Rightarrow> string option" where
  "split_subFilterId [] = None"
| "split_subFilterId (c # cs) =
     (if subFilterId_here (c # cs) then Some []
      else map_option ((#) c) (split_subFilterId cs))"

definition GetQuery :: "NostrSystem \<Rightarrow> string \<Rightarrow> Query option" where
  "GetQuery s sub =
     Map_get (Queries s) (case split_subFilterId sub of Some parent \<Rightarrow> parent | None \<Rightarrow> sub)"

definition OnEvent :: "NostrSystem \<Rightarrow> string \<Rightarrow> RawEvent \<Rightarrow> NostrSystem" where
  "OnEvent s sub ev =
     (case GetQuery s sub of
        None \<Rightarrow> s
      | Some q \<Rightarrow> s\<lparr>calls := calls s @ [FeedAdd (feed q) ev]\<rparr>)"

definition OnEndOfStoredEvents :: "NostrSystem \<Rightarrow> Connection \<Rightarrow> string \<Rightarrow> NostrSystem" where
  "OnEndOfStoredEvents s c sub =
     (case GetQuery s sub of
        None \<Rightarrow> s
      | Some q \<Rightarrow> s\<lparr>calls := calls s @ [Eose q sub c]\<rparr>)"

text \<open>Decimal rendering of a number, as the template literal \<open>`${n}`\<close> does.\<close>

definition digit_char :: "nat \<Rightarrow> char" where
  "digit_char d = ''0123456789'' ! d"

function string_of_nat :: "nat \<Rightarrow> string" where
  "string_of_nat n =
     (if n < 10 then [digit_char n] else string_of_nat (n div 10) @ [digit_char (n mod 10)])"
  by pat_completeness auto
termination
  by (relation "measure id") auto

declare string_of_nat.simps [simp del]


section \<open>Fields of a query assigned by \<open>NostrSystem\<close>\<close>

definition set_filters :: "RawReqFilter list \<Rightarrow> Query \<Rightarrow> Query" where
  "set_filters fs q =
     MkQuery (id_q q) fs (feed q) (relays q) (leaveOpen q) (closingAt q) (subQueries q)"

definition set_subQueries :: "Query list \<Rightarrow> Query \<Rightarrow> Query" where
  "set_subQueries qs q =
     MkQuery (id_q q) (filters q) (feed q) (relays q) (leaveOpen q) (closingAt q) qs"

definition set_leaveOpen :: "bool \<Rightarrow> Query \<Rightarrow> Query" where
  "set_leaveOpen b q =
     MkQuery (id_q q) (filters q) (feed q) (relays q) b (closingAt q) (subQueries q)"

definition set_relays :: "string list \<Rightarrow> Query \<Rightarrow> Query" where
  "set_relays rs q =
     MkQuery (id_q q) (filters q) (feed q) (Some rs) (leaveOpen q) (closingAt q) (subQueries q)"

section \<open>State hooks and the snapshot\<close>

text \<open>\<open>Array.prototype.findIndex\<close>: the first index whose element satisfies \<open>P\<close>, or \<open>-1\<close>.\<close>

fun findIndex :: "('a \<Rightarrow> bool) \<Rightarrow> 'a list \<Rightarrow> int" where
  "findIndex P [] = - 1"
| "findIndex P (x # xs) =
     (if P x then 0 else if findIndex P xs < 0 then - 1 else findIndex P xs + 1)"

text \<open>
  \<open>xs.splice(idx, 1)\<close>: a negative start counts from the end (and is clamped to 0), a start
  beyond the end is the end; one element is removed at the start, when there is one.
\<close>

definition splice1 :: "int \<Rightarrow> 'a list \<Rightarrow> 'a list" where
  "splice1 idx xs =
     (let len = int (length xs);
          start = (if idx < 0 then max (len + idx) 0 else min idx len)
      in take (nat start) xs @ drop (Suc (nat start)) xs)"

text \<open>The release function that \<open>hook(cb)\<close> returns, for the callback with identity \<open>n\<close>.\<close>

definition release :: "nat \<Rightarrow> HookSystemSnapshot list \<Rightarrow> HookSystemSnapshot list" where
  "release n hooks = splice1 (findIndex (\<lambda>a. cb_id a = n) hooks) hooks"

definition hook :: "HookSystemSnapshot \<Rightarrow> NostrSystem \<Rightarrow> NostrSystem" where
  "hook cb s = s\<lparr>stateHooks := stateHooks s @ [cb]\<rparr>"

definition hook_release :: "nat \<Rightarrow> NostrSystem \<Rightarrow> NostrSystem" where
  "hook_release n s = s\<lparr>stateHooks := release n (stateHooks s)\<rparr>"

text \<open>Calling a hook: the call is recorded, then its body runs the release functions.\<close>

definition call_hook :: "HookSystemSnapshot \<Rightarrow> NostrSystem \<Rightarrow> NostrSystem" where
  "call_hook h s =
     s\<lparr>calls := calls s @ [Notify (cb_id h)],
       stateHooks := foldl (\<lambda>hs n. release n hs) (stateHooks s) (cb_releases h)\<rparr>"

lemma length_splice1_le: "length (splice1 idx xs) \<le> length xs"
  by (simp add: splice1_def Let_def)

lemma length_release_le: "length (release n hooks) \<le> length hooks"
  by (simp add: release_def length_splice1_le)

lemma length_foldl_release_le: "length (foldl (\<lambda>hs n. release n hs) hooks ns) \<le> length hooks"
proof (induction ns arbitrary: hooks)
  case Nil
  show ?case by simp
next
  case (Cons n ns)
  have "length (foldl (\<lambda>hs n. release n hs) (release n hooks) ns) \<le> length (release n hooks)"
    by (rule Cons.IH)
  also have "\<dots> \<le> length hooks" by (rule length_release_le)
  finally show ?case by simp
qed

lemma length_call_hook_le: "length (stateHooks (call_hook h s)) \<le> length (stateHooks s)"
  by (simp add: call_hook_def length_foldl_release_le)

text \<open>
  \<open>for (const h of this.#stateHooks) h()\<close>: the array iterator keeps an index into the
  array itself and compares it with the current length at every step.
\<close>

function notify_from :: "nat \<Rightarrow> NostrSystem \<Rightarrow> NostrSystem" where
  "notify_from i s =
     (if i < length (stateHooks s)
      then notify_from (Suc i) (call_hook (stateHooks s ! i) s)
      else s)"
  by pat_completeness auto
termination
proof (relation "measure (\<lambda>(i, s). length (stateHooks s) - i)")
  show "wf (measure (\<lambda>(i, s). length (stateHooks s) - i))" by simp
next
  fix i :: nat and s :: NostrSystem
  assume "i < length (stateHooks s)"
  moreover have "length (stateHooks (call_hook (stateHooks s ! i) s)) \<le> length (stateHooks s)"
    by (rule length_call_hook_le)
  ultimately show "((Suc i, call_hook (stateHooks s ! i) s), (i, s))
      \<in> measure (\<lambda>(i, s). length (stateHooks s) - i)"
    by simp
qed

text \<open>
  \<open>#changed\<close> (here \<open>changed_sys\<close>; \<open>changed\<close> is the field of the filter diff): the
  snapshot is replaced by the projection of all queries, in the order of the registry, and
  then the hooks are called.  \<open>.flat()\<close> flattens one level.
\<close>

definition snapshot_entry :: "Query \<Rightarrow> SnapshotQuery" where
  "snapshot_entry a =
     \<lparr>snap_id = id_q a, snap_filters = filters a,
      subFilters = concat (map filters (subQueries a)), snap_closing = closing a\<rparr>"

definition snapshot_of :: "(string \<times> Query) list \<Rightarrow> SystemSnapshot" where
  "snapshot_of qs = \<lparr>queries = map (\<lambda>e. snapshot_entry (snd e)) qs\<rparr>"

definition changed_sys :: "NostrSystem \<Rightarrow> NostrSystem" where
  "changed_sys s = notify_from 0 (s\<lparr>snapshot := snapshot_of (Queries s)\<rparr>)"

definition getSnapshot :: "NostrSystem \<Rightarrow> SystemSnapshot" where
  "getSnapshot s = snapshot s"

section \<open>The query registry\<close>

text \<open>\<open>SendQuery\<close>: \<open>q.sendToRelay(s)\<close> for every connection of the pool, in the pool's order.\<close>

definition SendQuery :: "NostrSystem \<Rightarrow> Query \<Rightarrow> NostrSystem" where
  "SendQuery s q = s\<lparr>calls := calls s @ map (\<lambda>e. SendToRelay q (snd e)) (Sockets s)\<rparr>"

text \<open>\<open>new type()\<close>: a fresh store; \<open>ty\<close> is the value the constructor builds.\<close>

definition new_store :: "NoteStore \<Rightarrow> NostrSystem \<Rightarrow> nat \<times> NostrSystem" where
  "new_store ty s =
     (nextStore s, s\<lparr>stores := (stores s)(nextStore s := ty), nextStore := Suc (nextStore s)\<rparr>)"

definition AddQuery :: "NoteStore \<Rightarrow> RequestBuilder \<Rightarrow> NostrSystem \<Rightarrow> nat \<times> NostrSystem" where
  "AddQuery ty rb s =
     (case new_store ty s of (store, s1) \<Rightarrow>
        let q0 = new_Query (rb_id rb) (build rb) store;
            q1 = (if wants_leaveOpen rb then set_leaveOpen True q0 else q0);
            q = (case wanted_relays rb of Some rs \<Rightarrow> set_relays rs q1 | None \<Rightarrow> q1);
            s2 = s1\<lparr>Queries := Map_set (Queries s1) (rb_id rb) q\<rparr>
        in (store, changed_sys (SendQuery s2 q)))"

text \<open>
  The method \<open>Query(type, req)\<close> (here \<open>QueryReq\<close>; \<open>Query\<close> is the type).  It returns the
  store, as an address, and the new state.  The query found in the registry is an object:
  \<open>unCancel\<close>, the push onto \<open>subQueries\<close> and the assignment to \<open>filters\<close> change the
  entry of the registry, in its place; \<open>q.feed.loading = true\<close> changes the store that the
  query, its continuations and the caller share.
\<close>

definition QueryReq ::
  "NoteStore \<Rightarrow> RequestBuilder option \<Rightarrow> NostrSystem \<Rightarrow> nat \<times> NostrSystem" where
  "QueryReq ty req s =
     (case req of
        None \<Rightarrow> new_store ty s
      | Some rb \<Rightarrow>
          (case Map_get (Queries s) (rb_id rb) of
             None \<Rightarrow> AddQuery ty rb s
           | Some q0 \<Rightarrow>
               let fs = build rb;
                   q = unCancel q0;
                   diff = diffFilters (filters q) fs
               in if \<not> changed diff \<and> \<not> skipDiff rb
                  then (feed q, changed_sys (s\<lparr>Queries := Map_set (Queries s) (rb_id rb) q\<rparr>))
                  else
                    let subQ = new_Query
                                 (id_q q @ ''-'' @ string_of_nat (length (subQueries q) + 1))
                                 fs (feed q);
                        q' = set_filters fs (set_subQueries (subQueries q @ [subQ]) q);
                        s1 = s\<lparr>Queries := Map_set (Queries s) (rb_id rb) q',
                               stores := (stores s)
                                 (feed q := (stores s (feed q))\<lparr>loading := True\<rparr>)\<rparr>
                    in (feed q, changed_sys (SendQuery s1 subQ))))"

text \<open>\<open>CancelQuery\<close>; \<open>now\<close> is the time at which \<open>q.cancel()\<close> runs.\<close>

definition CancelQuery :: "int \<Rightarrow> NostrSystem \<Rightarrow> string \<Rightarrow> NostrSystem" where
  "CancelQuery now s sub =
     (case Map_get (Queries s) sub of
        None \<Rightarrow> s
      | Some q \<Rightarrow> s\<lparr>Queries := Map_set (Queries s) sub (cancel now q)\<rparr>)"

section \<open>The janitor\<close>

text \<open>
  \<open>#cleanup\<close>, one tick; \<open>now\<close> is what \<open>unixNowMs()\<close> returns.  The loop runs over the
  entries of the registry and deletes the entry it stands on; a \<open>Map\<close> iterator then goes
  on with the next entry.  The \<open>setTimeout\<close> that schedules the next tick is not part of
  the tick.  In \<open>v.closingAt && v.closingAt < now\<close> an unset timestamp and the number 0
  are falsy.
\<close>

definition past_due :: "int \<Rightarrow> Query \<Rightarrow> bool" where
  "past_due now v = (case closingAt v of None \<Rightarrow> False | Some t \<Rightarrow> t \<noteq> 0 \<and> t < now)"

fun cleanup_loop ::
  "int \<Rightarrow> (string \<times> Query) list \<Rightarrow> bool \<times> NostrSystem \<Rightarrow> bool \<times> NostrSystem" where
  "cleanup_loop now [] (ch, s) = (ch, s)"
| "cleanup_loop now ((k, v) # es) (ch, s) =
     (if past_due now v
      then cleanup_loop now es
             (True, s\<lparr>calls := calls s @ [SendClose v, ConsoleDebug k],
                      Queries := Map_delete (Queries s) k\<rparr>)
      else cleanup_loop now es (ch, s))"

definition cleanup :: "int \<Rightarrow> NostrSystem \<Rightarrow> NostrSystem" where
  "cleanup now s =
     (case cleanup_loop now (Queries s) (False, s) of
        (ch, s') \<Rightarrow> if ch then changed_sys s' else s')"

section \<open>The connection pool\<close>

text \<open>
  \<open>sanitizeRelayUrl\<close> is not part of the sources; it is a parameter.  \<open>unwrap\<close> throws on
  \<open>undefined\<close>, and the \<open>catch\<close> logs the error.  The body of \<open>ConnectToRelay\<close> runs
  without interruption up to \<open>await c.Connect()\<close>, its last statement; the call of
  \<open>Connect\<close> is recorded, its outcome belongs to the connection.  \<open>DisconnectRelay\<close> looks
  its argument up as it is.
\<close>

definition ConnectToRelay ::
  "(string \<Rightarrow> string option) \<Rightarrow> NostrSystem \<Rightarrow> string \<Rightarrow> RelaySettings \<Rightarrow> NostrSystem" where
  "ConnectToRelay sanitizeRelayUrl s address opts =
     (case sanitizeRelayUrl address of
        None \<Rightarrow> s\<lparr>calls := calls s @ [ConsoleError]\<rparr>
      | Some addr \<Rightarrow>
          if \<not> Map_has (Sockets s) addr
          then let c = new_Connection addr opts False
               in s\<lparr>Sockets := Map_set (Sockets s) addr c,
                    calls := calls s @ [NewConnection c, Connect c]\<rparr>
          else (case Map_get (Sockets s) addr of
                  None \<Rightarrow> s\<lparr>calls := calls s @ [ConsoleError]\<rparr>
                | Some c \<Rightarrow> s\<lparr>Sockets := Map_set (Sockets s) addr (c\<lparr>Settings := opts\<rparr>)\<rparr>))"

definition ConnectEphemeralRelay ::
  "(string \<Rightarrow> string option) \<Rightarrow> NostrSystem \<Rightarrow> string \<Rightarrow> Connection option \<times> NostrSystem"
  where
  "ConnectEphemeralRelay sanitizeRelayUrl s address =
     (case sanitizeRelayUrl address of
        None \<Rightarrow> (None, s\<lparr>calls := calls s @ [ConsoleError]\<rparr>)
      | Some addr \<Rightarrow>
          if \<not> Map_has (Sockets s) addr
          then let c = new_Connection addr \<lparr>read_s = True, write_s = False\<rparr> True
               in (Some c, s\<lparr>Sockets := Map_set (Sockets s) addr c,
                             calls := calls s @ [NewConnection c, Connect c]\<rparr>)
          else (None, s))"

definition DisconnectRelay :: "NostrSystem \<Rightarrow> string \<Rightarrow> NostrSystem" where
  "DisconnectRelay s address =
     (case Map_get (Sockets s) address of
        None \<Rightarrow> s
      | Some c \<Rightarrow> s\<lparr>Sockets := Map_delete (Sockets s) address, calls := calls s @ [Close c]\<rparr>)"


section \<open>Writing one event to a relay\<close>

text \<open>
  \<open>WriteOnceToRelay\<close> returns a promise and leaves two callbacks behind: the timer
  \<open>setTimeout(reject, 5_000)\<close> and the handler \<open>c.OnConnected\<close>.  The state of one call is
  the connection, the event, whether the timer is still set, whether a \<open>SendAsync\<close> is
  awaited, the state of the promise and the calls made on the connection.  What happens
  next is an occurrence from outside: the five seconds elapse, the connection signals
  \<open>OnConnected\<close>, or the relay acknowledges the event (the promise of \<open>SendAsync\<close>
  resolves).
\<close>

datatype promise = Pending | Resolved | Rejected "string option"

datatype occurrence = FiveSecondsElapsed | OnConnected | SendAcknowledged

record WriteOnce =
  wo_connection :: Connection
  wo_event :: RawEvent
  timer_set :: bool
  awaiting_send :: bool
  wo_promise :: promise
  wo_calls :: "call list"

text \<open>
  \<open>resolve\<close> and \<open>reject\<close> settle a pending promise and do nothing to a settled one.  The
  timer calls \<open>reject\<close> with no argument: the promise is rejected with no reason.
\<close>

definition settle :: "promise \<Rightarrow> promise \<Rightarrow> promise" where
  "settle outcome p = (if p = Pending then outcome else p)"

definition WriteOnceToRelay :: "string \<Rightarrow> RawEvent \<Rightarrow> WriteOnce" where
  "WriteOnceToRelay address ev =
     (let c = new_Connection address \<lparr>read_s = False, write_s = True\<rparr> True
      in \<lparr>wo_connection = c, wo_event = ev, timer_set = True, awaiting_send = False,
          wo_promise = Pending, wo_calls = [NewConnection c, Connect c]\<rparr>)"

fun write_once_step :: "WriteOnce \<Rightarrow> occurrence \<Rightarrow> WriteOnce" where
  "write_once_step w FiveSecondsElapsed =
     (if timer_set w
      then w\<lparr>timer_set := False, wo_promise := settle (Rejected None) (wo_promise w)\<rparr>
      else w)"
| "write_once_step w OnConnected =
     w\<lparr>timer_set := False, awaiting_send := True,
       wo_calls := wo_calls w @ [SendAsync (wo_connection w) (wo_event w)]\<rparr>"
| "write_once_step w SendAcknowledged =
     (if awaiting_send w
      then w\<lparr>awaiting_send := False,
             wo_calls := wo_calls w @ [Close (wo_connection w)],
             wo_promise := settle Resolved (wo_promise w)\<rparr>
      else w)"

definition write_once_run :: "WriteOnce \<Rightarrow> occurrence list \<Rightarrow> WriteOnce" where
  "write_once_run w os = foldl write_once_step w os"

section \<open>Notions used to state the janitor's properties\<close>

text \<open>
  The entries of the registry that a tick at \<open>now\<close> finds past due, those it keeps, and
  the calls it makes for a list of removed entries (\<open>v.sendClose()\<close> and the debug line).
\<close>

definition due_entries :: "int \<Rightarrow> (string \<times> Query) list \<Rightarrow> (string \<times> Query) list" where
  "due_entries now es = filter (\<lambda>e. past_due now (snd e)) es"

definition kept_entries :: "int \<Rightarrow> (string \<times> Query) list \<Rightarrow> (string \<times> Query) list" where
  "kept_entries now es = filter (\<lambda>e. \<not> past_due now (snd e)) es"

definition close_calls :: "(string \<times> Query) list \<Rightarrow> call list" where
  "close_calls es = concat (map (\<lambda>e. [SendClose (snd e), ConsoleDebug (fst e)]) es)"

section \<open>Example states\<close>

text \<open>The state the constructor leaves, and small concrete inputs for the closed instances below.\<close>

definition new_NostrSystem :: NostrSystem where
  "new_NostrSystem =
     \<lparr>Sockets = [], Queries = [], stateHooks = [], snapshot = \<lparr>queries = []\<rparr>,
      stores = (\<lambda>a. \<lparr>loading = False\<rparr>), nextStore = 0, calls = []\<rparr>"

definition example_filter :: RawReqFilter where
  "example_filter =
     \<lparr>kinds = [1], authors = [''alice''], tags = [], since = None, until = None, limit = None\<rparr>"

definition example_event :: RawEvent where
  "example_event = \<lparr>ev_id = ''e1'', pubkey = ''alice'', created_at = 10, content = ''hello''\<rparr>"

definition example_relay :: Connection where
  "example_relay = new_Connection ''wss://relay.example/'' \<lparr>read_s = True, write_s = True\<rparr> False"

definition example_query :: Query where
  "example_query = new_Query ''abc'' [example_filter] 0"

definition example_filter2 :: RawReqFilter where
  "example_filter2 =
     \<lparr>kinds = [1], authors = [''alice'', ''bob''], tags = [], since = None, until = None,
      limit = None\<rparr>"

text \<open>
  A stand-in for \<open>sanitizeRelayUrl\<close> in the examples: it rejects the empty address and
  ends every other address with a slash.
\<close>

definition example_sanitizeRelayUrl :: "string \<Rightarrow> string option" where
  "example_sanitizeRelayUrl a =
     (if a = [] then None else if last a = CHR ''/'' then Some a else Some (a @ ''/''))"

definition example_settings :: RelaySettings where
  "example_settings = \<lparr>read_s = True, write_s = False\<rparr>"

definition example_hook :: HookSystemSnapshot where
  "example_hook = \<lparr>cb_id = 7, cb_releases = []\<rparr>"

text \<open>A hook that releases itself when it is called, registered before a hook that does not.\<close>

definition example_self_releasing_hook :: HookSystemSnapshot where
  "example_self_releasing_hook = \<lparr>cb_id = 1, cb_releases = [1]\<rparr>"

definition example_other_hook :: HookSystemSnapshot where
  "example_other_hook = \<lparr>cb_id = 2, cb_releases = []\<rparr>"

definition example_two_hooks :: NostrSystem where
  "example_two_hooks =
     hook example_other_hook (hook example_self_releasing_hook new_NostrSystem)"

definition example_system :: NostrSystem where
  "example_system =
     new_NostrSystem\<lparr>Sockets := [(''wss://relay.example/'', example_relay)],
                     Queries := [(''abc'', example_query)],
                     stateHooks := [example_hook],
                     snapshot := snapshot_of [(''abc'', example_query)],
                     nextStore := 1\<rparr>"

text \<open>The example system with the self-releasing hook registered before the other hook.\<close>

definition example_system_two_hooks :: NostrSystem where
  "example_system_two_hooks =
     example_system\<lparr>stateHooks := [example_self_releasing_hook, example_other_hook]\<rparr>"

definition example_request :: RequestBuilder where
  "example_request = \<lparr>rb_id = ''abc'', build = [example_filter], options = None\<rparr>"

definition example_request2 :: RequestBuilder where
  "example_request2 = \<lparr>rb_id = ''abc'', build = [example_filter2], options = None\<rparr>"

section \<open>Properties of the notification round\<close>

declare notify_from.simps [simp del]

lemma call_hook_frame:
  "Queries (call_hook h s) = Queries s" "Sockets (call_hook h s) = Sockets s"
  "snapshot (call_hook h s) = snapshot s" "stores (call_hook h s) = stores s"
  "nextStore (call_hook h s) = nextStore s"
  by (simp_all add: call_hook_def)

lemma notify_from_frame:
  "Queries (notify_from i s) = Queries s \<and> Sockets (notify_from i s) = Sockets s \<and>
   snapshot (notify_from i s) = snapshot s \<and> stores (notify_from i s) = stores s \<and>
   nextStore (notify_from i s) = nextStore s"
proof (induction i s rule: notify_from.induct)
  case (1 i s)
  show ?case
  proof (cases "i < length (stateHooks s)")
    case True
    with 1 show ?thesis by (subst (1 2 3 4 5) notify_from.simps) (simp add: call_hook_frame)
  next
    case False
    then show ?thesis by (subst (1 2 3 4 5) notify_from.simps) simp
  qed
qed

lemma set_splice1: "set (splice1 idx xs) \<subseteq> set xs"
  by (auto simp: splice1_def Let_def dest: in_set_takeD in_set_dropD)

lemma set_release: "set (release n hooks) \<subseteq> set hooks"
  by (simp add: release_def set_splice1)

lemma set_foldl_release: "set (foldl (\<lambda>hs n. release n hs) hooks ns) \<subseteq> set hooks"
proof (induction ns arbitrary: hooks)
  case Nil
  show ?case by simp
next
  case (Cons n ns)
  have "set (foldl (\<lambda>hs n. release n hs) (release n hooks) ns) \<subseteq> set (release n hooks)"
    by (rule Cons.IH)
  with set_release [of n hooks] show ?case by auto
qed

lemma set_call_hook: "set (stateHooks (call_hook h s)) \<subseteq> set (stateHooks s)"
  by (simp add: call_hook_def set_foldl_release)

lemma calls_call_hook: "calls (call_hook h s) = calls s @ [Notify (cb_id h)]"
  by (simp add: call_hook_def)

lemma notify_from_calls:
  "\<exists>hs. calls (notify_from i s) = calls s @ map (\<lambda>h. Notify (cb_id h)) hs \<and>
        set hs \<subseteq> set (stateHooks s) \<and>
        set (stateHooks (notify_from i s)) \<subseteq> set (stateHooks s)"
proof (induction i s rule: notify_from.induct)
  case (1 i s)
  show ?case
  proof (cases "i < length (stateHooks s)")
    case True
    let ?h = "stateHooks s ! i"
    let ?s = "call_hook ?h s"
    from 1 [OF True] obtain hs where
      hs: "calls (notify_from (Suc i) ?s) = calls ?s @ map (\<lambda>h. Notify (cb_id h)) hs"
        "set hs \<subseteq> set (stateHooks ?s)"
        "set (stateHooks (notify_from (Suc i) ?s)) \<subseteq> set (stateHooks ?s)"
      by blast
    have eq: "notify_from i s = notify_from (Suc i) ?s"
      using True by (subst notify_from.simps) simp
    have sub: "set (stateHooks ?s) \<subseteq> set (stateHooks s)" by (rule set_call_hook)
    have mem: "?h \<in> set (stateHooks s)" using True by simp
    have "calls (notify_from i s) = calls s @ map (\<lambda>h. Notify (cb_id h)) (?h # hs)"
      using hs(1) by (simp add: eq calls_call_hook)
    moreover have "set (?h # hs) \<subseteq> set (stateHooks s)" using hs(2) sub mem by auto
    moreover have "set (stateHooks (notify_from i s)) \<subseteq> set (stateHooks s)"
      using hs(3) sub by (auto simp: eq)
    ultimately show ?thesis by blast
  next
    case False
    then have "notify_from i s = s" by (subst notify_from.simps) simp
    then have "calls (notify_from i s) = calls s @ map (\<lambda>h. Notify (cb_id h)) []" by simp
    moreover have "set (stateHooks (notify_from i s)) \<subseteq> set (stateHooks s)"
      using \<open>notify_from i s = s\<close> by simp
    ultimately show ?thesis by (metis empty_set empty_subsetI)
  qed
qed

lemma call_hook_quiet: "cb_releases h = [] \<Longrightarrow> call_hook h s = s\<lparr>calls := calls s @ [Notify (cb_id h)]\<rparr>"
  by (simp add: call_hook_def)

lemma notify_from_quiet_range:
  assumes "k \<le> length (stateHooks s)" and "i \<le> k"
    and "\<And>j. i \<le> j \<Longrightarrow> j < k \<Longrightarrow> cb_releases (stateHooks s ! j) = []"
  shows "notify_from i s =
         notify_from k (s\<lparr>calls := calls s @ map (\<lambda>h. Notify (cb_id h)) (take (k - i) (drop i (stateHooks s)))\<rparr>)"
  using assms
proof (induction "k - i" arbitrary: i s)
  case 0
  then have "i = k" by simp
  then show ?case by simp
next
  case (Suc d)
  then have lt: "i < k" by simp
  with Suc.prems have il: "i < length (stateHooks s)" by simp
  let ?h = "stateHooks s ! i"
  have q: "cb_releases ?h = []" using Suc.prems(3) [of i] lt by simp
  let ?s = "s\<lparr>calls := calls s @ [Notify (cb_id ?h)]\<rparr>"
  have step: "notify_from i s = notify_from (Suc i) ?s"
    using il by (subst notify_from.simps) (simp add: call_hook_quiet [OF q])
  have "d = k - Suc i" using Suc.hyps(2) by simp
  moreover have "k \<le> length (stateHooks ?s)" using Suc.prems(1) by simp
  moreover have "Suc i \<le> k" using lt by simp
  moreover have "\<And>j. Suc i \<le> j \<Longrightarrow> j < k \<Longrightarrow> cb_releases (stateHooks ?s ! j) = []"
    using Suc.prems(3) by simp
  ultimately have ih: "notify_from (Suc i) ?s =
      notify_from k (?s\<lparr>calls := calls ?s @ map (\<lambda>h. Notify (cb_id h)) (take (k - Suc i) (drop (Suc i) (stateHooks ?s)))\<rparr>)"
    by (rule Suc.hyps(1))
  have "take (k - i) (drop i (stateHooks s)) = ?h # take (k - Suc i) (drop (Suc i) (stateHooks s))"
    using il lt by (metis Cons_nth_drop_Suc Suc_diff_Suc take_Suc_Cons)
  then show ?case by (simp add: step ih)
qed

lemma notify_from_end: "length (stateHooks s) \<le> i \<Longrightarrow> notify_from i s = s"
  by (subst notify_from.simps) simp

lemma notify_from_all_quiet:
  assumes "\<forall>h\<in>set (stateHooks s). cb_releases h = []"
  shows "notify_from 0 s = s\<lparr>calls := calls s @ map (\<lambda>h. Notify (cb_id h)) (stateHooks s)\<rparr>"
proof -
  have "notify_from 0 s = notify_from (length (stateHooks s))
     (s\<lparr>calls := calls s @ map (\<lambda>h. Notify (cb_id h)) (take (length (stateHooks s) - 0) (drop 0 (stateHooks s)))\<rparr>)"
    using assms by (intro notify_from_quiet_range) auto
  then show ?thesis by (simp add: notify_from_end)
qed

section \<open>Sub-id routing: properties\<close>

lemma dash_not_digit: "\<not> is_digit CHR ''-''"
  by (simp add: is_digit_def)

lemma split_subFilterId_suffix:
  assumes "ds \<noteq> []" and "list_all is_digit ds"
  shows "split_subFilterId (p @ CHR ''-'' # ds) = Some p"
proof (induction p)
  case Nil
  from assms show ?case by (simp add: subFilterId_here_def)
next
  case (Cons c p)
  have "\<not> subFilterId_here (c # p @ CHR ''-'' # ds)"
    by (simp add: subFilterId_here_def dash_not_digit)
  with Cons show ?case by simp
qed

lemma digit_char_is_digit: "k < 10 \<Longrightarrow> is_digit (digit_char k)"
proof -
  assume "k < 10"
  then have "k \<in> {0, 1, 2, 3, 4, 5, 6, 7, 8, 9}" by auto
  then show ?thesis by (auto simp: is_digit_def digit_char_def)
qed

lemma string_of_nat_digits: "string_of_nat n \<noteq> [] \<and> list_all is_digit (string_of_nat n)"
proof (induction n rule: string_of_nat.induct)
  case (1 n)
  show ?case
  proof (cases "n < 10")
    case True
    then show ?thesis
      by (subst string_of_nat.simps, subst string_of_nat.simps) (simp add: digit_char_is_digit)
  next
    case False
    with 1 have ih: "string_of_nat (n div 10) \<noteq> [] \<and> list_all is_digit (string_of_nat (n div 10))"
      by simp
    have "string_of_nat n = string_of_nat (n div 10) @ [digit_char (n mod 10)]"
      using False by (subst string_of_nat.simps) simp
    with ih show ?thesis by (simp add: digit_char_is_digit)
  qed
qed

lemma GetQuery_suffix:
  assumes "ds \<noteq> []" and "list_all is_digit ds"
  shows "GetQuery s (p @ ''-'' @ ds) = Map_get (Queries s) p"
  using split_subFilterId_suffix [OF assms, of p] by (simp add: GetQuery_def)

text \<open>
  Claim C2.  An inbound subscription id that ends in a dash followed by decimal digits is
  cut back to what stands before that suffix, and the query is looked up under this parent
  id; this holds in particular for the ids given to continuations, the parent id followed
  by a dash and a number.  An event for such an id is added to the store of the parent
  query, and an end-of-stored-events signal is handed to the parent query, with the
  unshortened id and the connection.
\<close>

theorem C2_sub_id_routing:
  assumes "ds \<noteq> []" and "list_all is_digit ds"
  shows "GetQuery s (p @ ''-'' @ ds) = Map_get (Queries s) p \<and>
         GetQuery s (p @ ''-'' @ string_of_nat n) = Map_get (Queries s) p \<and>
         (\<forall>q. Map_get (Queries s) p = Some q \<longrightarrow>
            OnEvent s (p @ ''-'' @ ds) ev = s\<lparr>calls := calls s @ [FeedAdd (feed q) ev]\<rparr> \<and>
            OnEndOfStoredEvents s c (p @ ''-'' @ ds)
              = s\<lparr>calls := calls s @ [Eose q (p @ ''-'' @ ds) c]\<rparr>)"
proof -
  have g: "GetQuery s (p @ ''-'' @ ds) = Map_get (Queries s) p"
    by (rule GetQuery_suffix [OF assms])
  have "GetQuery s (p @ ''-'' @ string_of_nat n) = Map_get (Queries s) p"
    using string_of_nat_digits [of n] by (intro GetQuery_suffix) simp_all
  with g show ?thesis by (simp add: OnEvent_def OnEndOfStoredEvents_def)
qed

theorem C2_sub_id_routing_witness:
  "''2'' \<noteq> [] \<and> list_all is_digit ''2'' \<and>
   Map_get (Queries example_system) ''abc'' = Some example_query \<and>
   GetQuery example_system ''abc-2'' = Some example_query \<and>
   OnEvent example_system ''abc-2'' example_event
     = example_system\<lparr>calls := [FeedAdd 0 example_event]\<rparr> \<and>
   OnEndOfStoredEvents example_system example_relay ''abc-2''
     = example_system\<lparr>calls := [Eose example_query ''abc-2'' example_relay]\<rparr>"
proof -
  have d: "''2'' \<noteq> []" "list_all is_digit ''2''" by (simp_all add: is_digit_def)
  have q: "Map_get (Queries example_system) ''abc'' = Some example_query"
    by (simp add: example_system_def new_NostrSystem_def Map_get_def)
  have f: "feed example_query = 0" "calls example_system = []"
    by (simp_all add: example_query_def new_Query_def example_system_def new_NostrSystem_def)
  show ?thesis
    using C2_sub_id_routing [OF d, of example_system "''abc''" 0 example_event example_relay] d q f
    by simp
qed

section \<open>The query registry: properties\<close>

lemma changed_sys_frame:
  "Queries (changed_sys s) = Queries s" "Sockets (changed_sys s) = Sockets s"
  "stores (changed_sys s) = stores s" "nextStore (changed_sys s) = nextStore s"
  "snapshot (changed_sys s) = snapshot_of (Queries s)"
  by (simp_all add: changed_sys_def notify_from_frame)

lemma changed_sys_calls:
  "\<exists>hs. calls (changed_sys s) = calls s @ map (\<lambda>h. Notify (cb_id h)) hs \<and>
        set hs \<subseteq> set (stateHooks s)"
proof -
  let ?s = "s\<lparr>snapshot := snapshot_of (Queries s)\<rparr>"
  from notify_from_calls [of 0 ?s] obtain hs where
    "calls (notify_from 0 ?s) = calls ?s @ map (\<lambda>h. Notify (cb_id h)) hs"
    "set hs \<subseteq> set (stateHooks ?s)"
    by blast
  then show ?thesis by (auto simp: changed_sys_def)
qed

lemma changed_sys_quiet:
  assumes "\<forall>h\<in>set (stateHooks s). cb_releases h = []"
  shows "changed_sys s =
         s\<lparr>snapshot := snapshot_of (Queries s),
           calls := calls s @ map (\<lambda>h. Notify (cb_id h)) (stateHooks s)\<rparr>"
proof -
  let ?s = "s\<lparr>snapshot := snapshot_of (Queries s)\<rparr>"
  have "\<forall>h\<in>set (stateHooks ?s). cb_releases h = []" using assms by simp
  then show ?thesis unfolding changed_sys_def by (subst notify_from_all_quiet) simp_all
qed

lemma Map_get_Map_set: "Map_get (Map_set m k v) k = Some v"
  by (induction m) (auto simp: Map_get_def)

lemma Map_get_Map_set_other: "k' \<noteq> k \<Longrightarrow> Map_get (Map_set m k v) k' = Map_get m k'"
  by (induction m) (auto simp: Map_get_def)

lemma Map_set_same: "Map_get m k = Some v \<Longrightarrow> Map_set m k v = m"
  by (induction m) (auto simp: Map_get_def)

lemma keys_Map_set_present: "Map_get m k = Some v \<Longrightarrow> map fst (Map_set m k v') = map fst m"
  by (induction m) (auto simp: Map_get_def)

lemma Map_set_absent: "Map_get m k = None \<Longrightarrow> Map_set m k v = m @ [(k, v)]"
  by (induction m) (auto simp: Map_get_def split: if_splits)

lemma calls_SendQuery: "calls (SendQuery s q) = calls s @ map (\<lambda>e. SendToRelay q (snd e)) (Sockets s)"
  by (simp add: SendQuery_def)

lemma SendQuery_frame:
  "Queries (SendQuery s q) = Queries s" "Sockets (SendQuery s q) = Sockets s"
  "stores (SendQuery s q) = stores s" "nextStore (SendQuery s q) = nextStore s"
  "stateHooks (SendQuery s q) = stateHooks s" "snapshot (SendQuery s q) = snapshot s"
  by (simp_all add: SendQuery_def)



lemma unCancel_sel [simp]:
  "id_q (unCancel q) = id_q q" "filters (unCancel q) = filters q" "feed (unCancel q) = feed q"
  "relays (unCancel q) = relays q" "leaveOpen (unCancel q) = leaveOpen q"
  "closingAt (unCancel q) = None" "subQueries (unCancel q) = subQueries q"
  by (simp_all add: unCancel_def)

lemma QueryReq_unchanged:
  assumes "Map_get (Queries s) (rb_id req) = Some q"
    and "filters q = build req" and "\<not> skipDiff req"
  shows "QueryReq ty (Some req) s =
     (feed q, changed_sys (s\<lparr>Queries := Map_set (Queries s) (rb_id req) (unCancel q)\<rparr>))"
proof -
  have "changed (diffFilters (filters (unCancel q)) (build req)) = False"
    using assms(2) by (simp add: diffFilters_def)
  then show ?thesis
    using assms(1,3) by (simp add: QueryReq_def Let_def)
qed


lemma QueryReq_changed:
  assumes "Map_get (Queries s) (rb_id req) = Some q"
    and "filters q \<noteq> build req \<or> skipDiff req"
  shows "QueryReq ty (Some req) s =
     (feed q,
      changed_sys (SendQuery
        (s\<lparr>Queries := Map_set (Queries s) (rb_id req)
              (MkQuery (id_q q) (build req) (feed q) (relays q) (leaveOpen q) None
                 (subQueries q @
                  [new_Query (id_q q @ ''-'' @ string_of_nat (length (subQueries q) + 1))
                     (build req) (feed q)])),
           stores := (stores s)(feed q := (stores s (feed q))\<lparr>loading := True\<rparr>)\<rparr>)
        (new_Query (id_q q @ ''-'' @ string_of_nat (length (subQueries q) + 1))
           (build req) (feed q))))"
proof (cases "skipDiff req")
  case True
  then show ?thesis
    using assms(1) by (simp add: QueryReq_def Let_def set_filters_def set_subQueries_def)
next
  case False
  with assms(2) have "changed (diffFilters (filters (unCancel q)) (build req))"
    by (simp add: diffFilters_def)
  then show ?thesis
    using assms(1) by (simp add: QueryReq_def Let_def set_filters_def set_subQueries_def)
qed

lemma changed_sys_first:
  assumes "stateHooks s \<noteq> []"
  shows "\<exists>rest. calls (changed_sys s) = calls s @ Notify (cb_id (hd (stateHooks s))) # rest"
proof -
  define s0 where "s0 = s\<lparr>snapshot := snapshot_of (Queries s)\<rparr>"
  define s1 where "s1 = call_hook (stateHooks s ! 0) s0"
  have h: "stateHooks s ! 0 = hd (stateHooks s)" using assms by (simp add: hd_conv_nth)
  have step: "notify_from 0 s0 = notify_from (Suc 0) s1"
    using assms unfolding s1_def s0_def by (subst notify_from.simps) simp
  obtain hs :: "HookSystemSnapshot list" where
    hs: "calls (notify_from (Suc 0) s1) = calls s1 @ map (\<lambda>h. Notify (cb_id h)) hs"
    using notify_from_calls [of "Suc 0" s1] by blast
  have "calls s1 = calls s @ [Notify (cb_id (hd (stateHooks s)))]"
    by (simp add: s1_def s0_def calls_call_hook h)
  with hs step show ?thesis by (simp add: changed_sys_def s0_def [symmetric])
qed

text \<open>
  Claim C1.  A request for the id of a registered query \<open>q\<close>, with a filter set that
  differs from the stored one or with \<open>skipDiff\<close> set, allocates one continuation: its id
  is the id of \<open>q\<close>, a dash and the number of continuations \<open>q\<close> had plus one; it carries
  the whole new filter set and the store reference of \<open>q\<close>.  The continuation is appended
  to the sub-queries of \<open>q\<close>, the stored filters of \<open>q\<close> become the new set, \<open>q\<close> is
  un-cancelled, no other entry of the registry changes, the store of \<open>q\<close> has its loading
  flag set, the continuation (and nothing else) is sent to every connection of the pool in
  the pool's order, and a snapshot built from the registry is published, followed only by
  calls of state hooks.  The store of \<open>q\<close> is returned.
\<close>

theorem C1_changed_request_continuation:
  assumes "Map_get (Queries s) (rb_id req) = Some q"
    and "filters q \<noteq> build req \<or> skipDiff req"
  shows "let subQ = new_Query (id_q q @ ''-'' @ string_of_nat (length (subQueries q) + 1))
                      (build req) (feed q);
             q' = MkQuery (id_q q) (build req) (feed q) (relays q) (leaveOpen q) None
                    (subQueries q @ [subQ]);
             s' = snd (QueryReq ty (Some req) s)
         in id_q subQ = id_q q @ ''-'' @ string_of_nat (length (subQueries q) + 1) \<and>
            filters subQ = build req \<and> feed subQ = feed q \<and>
            fst (QueryReq ty (Some req) s) = feed q \<and>
            Queries s' = Map_set (Queries s) (rb_id req) q' \<and>
            Map_get (Queries s') (rb_id req) = Some q' \<and>
            map fst (Queries s') = map fst (Queries s) \<and>
            stores s' = (stores s)(feed q := (stores s (feed q))\<lparr>loading := True\<rparr>) \<and>
            loading (stores s' (feed q)) \<and>
            Sockets s' = Sockets s \<and>
            (\<exists>hs. calls s' = calls s @ map (\<lambda>e. SendToRelay subQ (snd e)) (Sockets s)
                                    @ map (\<lambda>h. Notify (cb_id h)) hs \<and>
                  set hs \<subseteq> set (stateHooks s)) \<and>
            snapshot s' = snapshot_of (Queries s')"
proof -
  define subQ where
    "subQ = new_Query (id_q q @ ''-'' @ string_of_nat (length (subQueries q) + 1))
              (build req) (feed q)"
  define q' where
    "q' = MkQuery (id_q q) (build req) (feed q) (relays q) (leaveOpen q) None
            (subQueries q @ [subQ])"
  define s1 where
    "s1 = s\<lparr>Queries := Map_set (Queries s) (rb_id req) q',
             stores := (stores s)(feed q := (stores s (feed q))\<lparr>loading := True\<rparr>)\<rparr>"
  have r: "QueryReq ty (Some req) s = (feed q, changed_sys (SendQuery s1 subQ))"
    unfolding s1_def q'_def subQ_def by (rule QueryReq_changed [OF assms])
  from changed_sys_calls [of "SendQuery s1 subQ"] obtain hs where
    hs: "calls (changed_sys (SendQuery s1 subQ))
           = calls (SendQuery s1 subQ) @ map (\<lambda>h. Notify (cb_id h)) hs"
        "set hs \<subseteq> set (stateHooks (SendQuery s1 subQ))"
    by blast
  have c: "calls (changed_sys (SendQuery s1 subQ))
             = calls s @ map (\<lambda>e. SendToRelay subQ (snd e)) (Sockets s)
                 @ map (\<lambda>h. Notify (cb_id h)) hs"
    using hs(1) by (simp add: calls_SendQuery s1_def)
  have h: "set hs \<subseteq> set (stateHooks s)"
    using hs(2) by (simp add: SendQuery_frame s1_def)
  have sel: "id_q subQ = id_q q @ ''-'' @ string_of_nat (length (subQueries q) + 1)"
    "filters subQ = build req" "feed subQ = feed q"
    by (simp_all add: subQ_def new_Query_def)
  have qs: "Queries (changed_sys (SendQuery s1 subQ)) = Map_set (Queries s) (rb_id req) q'"
    by (simp add: changed_sys_frame SendQuery_frame s1_def)
  have st: "stores (changed_sys (SendQuery s1 subQ))
              = (stores s)(feed q := (stores s (feed q))\<lparr>loading := True\<rparr>)"
    by (simp add: changed_sys_frame SendQuery_frame s1_def)
  have so: "Sockets (changed_sys (SendQuery s1 subQ)) = Sockets s"
    by (simp add: changed_sys_frame SendQuery_frame s1_def)
  have sn: "snapshot (changed_sys (SendQuery s1 subQ))
              = snapshot_of (Queries (changed_sys (SendQuery s1 subQ)))"
    by (simp add: changed_sys_frame SendQuery_frame)
  have ks: "map fst (Map_set (Queries s) (rb_id req) q') = map fst (Queries s)"
    by (rule keys_Map_set_present [OF assms(1)])
  have ex: "\<exists>hs. calls (changed_sys (SendQuery s1 subQ))
             = calls s @ map (\<lambda>e. SendToRelay subQ (snd e)) (Sockets s)
                 @ map (\<lambda>h. Notify (cb_id h)) hs \<and> set hs \<subseteq> set (stateHooks s)"
    using c h by blast
  show ?thesis
    unfolding Let_def subQ_def [symmetric] q'_def [symmetric] r
    using sel qs st so sn ks ex by (simp add: Map_get_Map_set)
qed


lemma example_system_sel:
  "Sockets example_system = [(''wss://relay.example/'', example_relay)]"
  "Queries example_system = [(''abc'', example_query)]"
  "stateHooks example_system = [example_hook]"
  "snapshot example_system = snapshot_of [(''abc'', example_query)]"
  "calls example_system = []"
  "nextStore example_system = 1"
  by (simp_all add: example_system_def new_NostrSystem_def)

lemma example_query_sel:
  "id_q example_query = ''abc''" "filters example_query = [example_filter]"
  "feed example_query = 0" "relays example_query = None" "leaveOpen example_query = False"
  "closingAt example_query = None" "subQueries example_query = []"
  by (simp_all add: example_query_def new_Query_def)

lemma example_filters_differ: "example_filter \<noteq> example_filter2"
  by (simp add: example_filter_def example_filter2_def)

lemma string_of_nat_1: "string_of_nat (Suc 0) = ''1''"
  by (subst string_of_nat.simps) (simp add: digit_char_def)

theorem C1_changed_request_continuation_witness:
  "Map_get (Queries example_system) (rb_id example_request2) = Some example_query \<and>
   filters example_query \<noteq> build example_request2 \<and>
   fst (QueryReq \<lparr>loading = False\<rparr> (Some example_request2) example_system) = 0 \<and>
   Queries (snd (QueryReq \<lparr>loading = False\<rparr> (Some example_request2) example_system))
     = [(''abc'', MkQuery ''abc'' [example_filter2] 0 None False None
                   [new_Query ''abc-1'' [example_filter2] 0])] \<and>
   loading (stores (snd (QueryReq \<lparr>loading = False\<rparr> (Some example_request2) example_system)) 0) \<and>
   (\<exists>hs. calls (snd (QueryReq \<lparr>loading = False\<rparr> (Some example_request2) example_system))
           = SendToRelay (new_Query ''abc-1'' [example_filter2] 0) example_relay
               # map (\<lambda>h. Notify (cb_id h)) hs \<and>
         set hs \<subseteq> {example_hook})"
proof -
  have h1: "Map_get (Queries example_system) (rb_id example_request2) = Some example_query"
    by (simp add: example_system_sel example_request2_def Map_get_def)
  have h2: "filters example_query \<noteq> build example_request2"
    by (simp add: example_query_sel example_request2_def example_filters_differ)
  show ?thesis
    using C1_changed_request_continuation [OF h1 disjI1 [OF h2], of "\<lparr>loading = False\<rparr>"] h1 h2
    by (simp add: Let_def example_system_sel example_query_sel example_request2_def
          string_of_nat_1)
qed

text \<open>
  Claim C3.  A second request for the id of a registered query \<open>q\<close> whose filter set
  compares as unchanged, without \<open>skipDiff\<close>, returns the store of \<open>q\<close>; the registry
  keeps its keys, \<open>q\<close> keeps its filters and its sub-queries (it is only un-cancelled), the
  pool and the stores are untouched, and the only calls made are calls of state hooks:
  nothing is sent to a relay.
\<close>

theorem C3_unchanged_request_no_traffic:
  assumes "Map_get (Queries s) (rb_id req) = Some q"
    and "filters q = build req"
    and "\<not> skipDiff req"
  shows "fst (QueryReq ty (Some req) s) = feed q \<and>
         Queries (snd (QueryReq ty (Some req) s)) = Map_set (Queries s) (rb_id req) (unCancel q) \<and>
         map fst (Queries (snd (QueryReq ty (Some req) s))) = map fst (Queries s) \<and>
         filters (unCancel q) = filters q \<and> subQueries (unCancel q) = subQueries q \<and>
         feed (unCancel q) = feed q \<and>
         Sockets (snd (QueryReq ty (Some req) s)) = Sockets s \<and>
         stores (snd (QueryReq ty (Some req) s)) = stores s \<and>
         nextStore (snd (QueryReq ty (Some req) s)) = nextStore s \<and>
         (\<exists>hs. calls (snd (QueryReq ty (Some req) s)) = calls s @ map (\<lambda>h. Notify (cb_id h)) hs \<and>
               set hs \<subseteq> set (stateHooks s))"
proof -
  define s1 where "s1 = s\<lparr>Queries := Map_set (Queries s) (rb_id req) (unCancel q)\<rparr>"
  have r: "QueryReq ty (Some req) s = (feed q, changed_sys s1)"
    unfolding s1_def by (rule QueryReq_unchanged [OF assms])
  obtain hs where hs: "calls (changed_sys s1) = calls s1 @ map (\<lambda>h. Notify (cb_id h)) hs"
    "set hs \<subseteq> set (stateHooks s1)"
    using changed_sys_calls [of s1] by blast
  then have "\<exists>hs. calls (changed_sys s1) = calls s @ map (\<lambda>h. Notify (cb_id h)) hs \<and>
               set hs \<subseteq> set (stateHooks s)"
    by (auto simp: s1_def)
  moreover have "map fst (Map_set (Queries s) (rb_id req) (unCancel q)) = map fst (Queries s)"
    by (rule keys_Map_set_present [OF assms(1)])
  ultimately show ?thesis
    unfolding r by (simp add: changed_sys_frame s1_def)
qed

theorem C3_unchanged_request_no_traffic_witness:
  "Map_get (Queries example_system) (rb_id example_request) = Some example_query \<and>
   filters example_query = build example_request \<and>
   \<not> skipDiff example_request \<and>
   fst (QueryReq \<lparr>loading = False\<rparr> (Some example_request) example_system) = 0 \<and>
   Queries (snd (QueryReq \<lparr>loading = False\<rparr> (Some example_request) example_system))
     = [(''abc'', example_query)] \<and>
   Sockets (snd (QueryReq \<lparr>loading = False\<rparr> (Some example_request) example_system))
     = Sockets example_system \<and>
   (\<exists>hs. calls (snd (QueryReq \<lparr>loading = False\<rparr> (Some example_request) example_system))
           = map (\<lambda>h. Notify (cb_id h)) hs \<and> set hs \<subseteq> {example_hook})"
proof -
  have h1: "Map_get (Queries example_system) (rb_id example_request) = Some example_query"
    by (simp add: example_system_sel example_request_def Map_get_def)
  have h2: "filters example_query = build example_request"
    by (simp add: example_query_sel example_request_def)
  have h3: "\<not> skipDiff example_request"
    by (simp add: skipDiff_def example_request_def)
  have u: "unCancel example_query = example_query"
    by (simp add: unCancel_def example_query_def new_Query_def)
  show ?thesis
    using C3_unchanged_request_no_traffic [OF h1 h2 h3, of "\<lparr>loading = False\<rparr>"] h1 h2 h3
    by (simp add: u example_system_sel example_query_sel example_request_def)
qed

text \<open>
  Claim C10, as amended.  A request for the id of a registered query whose filter set
  compares as unchanged, without \<open>skipDiff\<close>, still publishes a snapshot built from the
  registry and runs a notification round over the hook list itself: the first registered
  hook is called, and when no hook releases a hook during the round, every registered hook
  is called once, in registration order.  The query is un-cancelled; when it was not
  closing, the registry is what it was.
\<close>

theorem C10_unchanged_request_observable:
  assumes "Map_get (Queries s) (rb_id req) = Some q"
    and "filters q = build req"
    and "\<not> skipDiff req"
  shows "snapshot (snd (QueryReq ty (Some req) s))
           = snapshot_of (Queries (snd (QueryReq ty (Some req) s))) \<and>
         Queries (snd (QueryReq ty (Some req) s))
           = Map_set (Queries s) (rb_id req) (unCancel q) \<and>
         (closingAt q = None \<longrightarrow> Queries (snd (QueryReq ty (Some req) s)) = Queries s) \<and>
         (stateHooks s \<noteq> [] \<longrightarrow>
            (\<exists>rest. calls (snd (QueryReq ty (Some req) s))
                      = calls s @ Notify (cb_id (hd (stateHooks s))) # rest)) \<and>
         ((\<forall>h\<in>set (stateHooks s). cb_releases h = []) \<longrightarrow>
            calls (snd (QueryReq ty (Some req) s))
              = calls s @ map (\<lambda>h. Notify (cb_id h)) (stateHooks s) \<and>
            stateHooks (snd (QueryReq ty (Some req) s)) = stateHooks s)"
proof -
  define s1 where "s1 = s\<lparr>Queries := Map_set (Queries s) (rb_id req) (unCancel q)\<rparr>"
  have r: "snd (QueryReq ty (Some req) s) = changed_sys s1"
    unfolding s1_def by (simp add: QueryReq_unchanged [OF assms])
  have a: "snapshot (changed_sys s1) = snapshot_of (Queries (changed_sys s1))"
    by (simp add: changed_sys_frame)
  have a': "Queries (changed_sys s1) = Map_set (Queries s) (rb_id req) (unCancel q)"
    by (simp add: changed_sys_frame s1_def)
  have b: "Queries (changed_sys s1) = Queries s" if "closingAt q = None"
  proof -
    have "unCancel q = q" using that by (cases q) (simp add: unCancel_def)
    then show ?thesis by (simp add: changed_sys_frame s1_def Map_set_same [OF assms(1)])
  qed
  have c: "\<exists>rest. calls (changed_sys s1) = calls s @ Notify (cb_id (hd (stateHooks s))) # rest"
    if "stateHooks s \<noteq> []"
    using changed_sys_first [of s1] that by (simp add: s1_def)
  have d: "calls (changed_sys s1) = calls s @ map (\<lambda>h. Notify (cb_id h)) (stateHooks s) \<and>
           stateHooks (changed_sys s1) = stateHooks s"
    if "\<forall>h\<in>set (stateHooks s). cb_releases h = []"
  proof -
    have "\<forall>h\<in>set (stateHooks s1). cb_releases h = []" using that by (simp add: s1_def)
    then show ?thesis by (simp add: changed_sys_quiet s1_def)
  qed
  show ?thesis unfolding r using a a' b c d by blast
qed

theorem C10_unchanged_request_observable_witness:
  "Map_get (Queries example_system) (rb_id example_request) = Some example_query \<and>
   filters example_query = build example_request \<and>
   \<not> skipDiff example_request \<and>
   closingAt example_query = None \<and>
   stateHooks example_system = [example_hook] \<and>
   cb_releases example_hook = [] \<and>
   snapshot (snd (QueryReq \<lparr>loading = False\<rparr> (Some example_request) example_system))
     = snapshot_of [(''abc'', example_query)] \<and>
   Queries (snd (QueryReq \<lparr>loading = False\<rparr> (Some example_request) example_system))
     = Queries example_system \<and>
   calls (snd (QueryReq \<lparr>loading = False\<rparr> (Some example_request) example_system))
     = [Notify 7]"
proof -
  have h1: "Map_get (Queries example_system) (rb_id example_request) = Some example_query"
    by (simp add: example_system_sel example_request_def Map_get_def)
  have h2: "filters example_query = build example_request"
    by (simp add: example_query_sel example_request_def)
  have h3: "\<not> skipDiff example_request"
    by (simp add: skipDiff_def example_request_def)
  have h4: "cb_releases example_hook = []" "cb_id example_hook = 7"
    by (simp_all add: example_hook_def)
  have u: "unCancel example_query = example_query" "rb_id example_request = ''abc''"
    by (simp_all add: unCancel_def example_query_def new_Query_def example_request_def)
  show ?thesis
    using C10_unchanged_request_observable [OF h1 h2 h3, of "\<lparr>loading = False\<rparr>"] h1 h2 h3 h4
    by (simp add: example_system_sel example_query_sel u)
qed

section \<open>The janitor: properties\<close>

lemma cleanup_loop_eq:
  "cleanup_loop now es (ch, s) =
     (ch \<or> due_entries now es \<noteq> [],
      s\<lparr>calls := calls s @ close_calls (due_entries now es),
        Queries := filter (\<lambda>e. fst e \<notin> fst ` set (due_entries now es)) (Queries s)\<rparr>)"
proof (induction es arbitrary: ch s)
  case Nil
  show ?case by (simp add: due_entries_def close_calls_def)
next
  case (Cons e es)
  obtain k v where e: "e = (k, v)" by (cases e)
  show ?case
  proof (cases "past_due now v")
    case True
    have f: "filter (\<lambda>e. fst e \<notin> fst ` set (due_entries now es)) (Map_delete (Queries s) k)
           = filter (\<lambda>e. fst e \<notin> fst ` set (due_entries now ((k, v) # es))) (Queries s)"
      using True by (auto simp: Map_delete_def due_entries_def intro: filter_cong)
    show ?thesis
      using True f by (simp add: e Cons.IH) (simp add: due_entries_def close_calls_def)
  next
    case False
    then show ?thesis by (simp add: e Cons.IH) (simp add: due_entries_def)
  qed
qed

lemma distinct_keys_filter:
  assumes "distinct (map fst m)"
  shows "filter (\<lambda>e. fst e \<notin> fst ` set (filter P m)) m = filter (\<lambda>e. \<not> P e) m"
proof (rule filter_cong [OF refl])
  fix e assume e: "e \<in> set m"
  show "(fst e \<notin> fst ` set (filter P m)) = (\<not> P e)"
  proof
    assume "fst e \<notin> fst ` set (filter P m)"
    with e show "\<not> P e" by force
  next
    assume n: "\<not> P e"
    show "fst e \<notin> fst ` set (filter P m)"
    proof
      assume "fst e \<in> fst ` set (filter P m)"
      then obtain e' where e': "e' \<in> set m" "P e'" "fst e' = fst e" by auto
      with assms e have "e' = e"
        by (metis eq_key_imp_eq_value prod.collapse)
      with e' n show False by simp
    qed
  qed
qed

lemma cleanup_eq:
  assumes "distinct (map fst (Queries s))"
  shows "cleanup now s =
     (if due_entries now (Queries s) \<noteq> []
      then changed_sys (s\<lparr>calls := calls s @ close_calls (due_entries now (Queries s)),
                          Queries := kept_entries now (Queries s)\<rparr>)
      else s)"
proof -
  have k: "filter (\<lambda>e. fst e \<notin> fst ` set (due_entries now (Queries s))) (Queries s)
         = kept_entries now (Queries s)"
    unfolding due_entries_def kept_entries_def by (rule distinct_keys_filter [OF assms])
  show ?thesis
  proof (cases "due_entries now (Queries s) = []")
    case True
    then show ?thesis by (simp add: cleanup_def cleanup_loop_eq close_calls_def)
  next
    case False
    then show ?thesis by (simp add: cleanup_def cleanup_loop_eq k)
  qed
qed

lemma Map_get_filter_keep:
  "Map_get m k = Some v \<Longrightarrow> P (k, v) \<Longrightarrow> Map_get (filter P m) k = Some v"
  by (induction m) (auto simp: Map_get_def split: if_splits)

lemma Map_has_filter_drop:
  assumes "distinct (map fst m)" and "Map_get m k = Some v" and "\<not> P (k, v)"
  shows "\<not> Map_has (filter P m) k"
proof -
  have "k \<notin> fst ` set (filter P m)"
  proof
    assume "k \<in> fst ` set (filter P m)"
    then obtain v' where v': "(k, v') \<in> set m" "P (k, v')" by auto
    from assms(2) have "(k, v) \<in> set m" by (simp add: Map_get_def map_of_SomeD)
    with assms(1) v'(1) have "v' = v" by (rule eq_key_imp_eq_value)
    with v'(2) assms(3) show False by simp
  qed
  then show ?thesis by (simp add: Map_has_def map_of_eq_None_iff)
qed

lemma CancelQuery_registered:
  assumes "Map_get (Queries s) k = Some q"
  shows "CancelQuery t s k = s\<lparr>Queries := Map_set (Queries s) k (cancel t q)\<rparr>"
  using assms by (simp add: CancelQuery_def)

lemma QueryReq_uncancels:
  assumes "Map_get (Queries s) (rb_id req) = Some q"
  shows "map fst (Queries (snd (QueryReq ty (Some req) s))) = map fst (Queries s) \<and>
         (\<exists>q'. Map_get (Queries (snd (QueryReq ty (Some req) s))) (rb_id req) = Some q' \<and>
               closingAt q' = None)"
proof (cases "filters q \<noteq> build req \<or> skipDiff req")
  case True
  show ?thesis
    by (simp add: QueryReq_changed [OF assms True] changed_sys_frame SendQuery_frame
        Map_get_Map_set keys_Map_set_present [OF assms])
next
  case False
  then have "filters q = build req" "\<not> skipDiff req" by simp_all
  then show ?thesis
    by (simp add: QueryReq_unchanged [OF assms] changed_sys_frame
        Map_get_Map_set keys_Map_set_present [OF assms])
qed


lemma SendClose_in_close_calls: "e \<in> set es \<Longrightarrow> SendClose (snd e) \<in> set (close_calls es)"
  by (auto simp: close_calls_def)

lemma CancelQuery_keys:
  "map fst (Queries (CancelQuery t s k)) = map fst (Queries s)"
  by (cases "Map_get (Queries s) k") (simp_all add: CancelQuery_def keys_Map_set_present)

text \<open>
  Claim C8.  One tick of the janitor at time \<open>now\<close>, on a registry whose keys are distinct
  (it is a \<open>Map\<close>).  The queries that are past due (their \<open>closingAt\<close> is set, is not 0 and
  is less than \<open>now\<close>) each get \<open>sendClose\<close> called, in registry order, and are removed;
  the others stay, in order.  When at least one was removed the tick ends with exactly one
  \<open>#changed\<close>, on the swept registry: the snapshot is built from the queries that remain
  and only state hooks are called after the closes (each once, in order, when no hook
  releases a hook during the round).  When none was due the tick changes nothing.
  Cancelling a registered query that is not left open at a time \<open>t\<close> (not 0) and ticking
  at a later time removes it, with that one \<open>#changed\<close>; a request for its id between the
  cancel and the tick un-cancels it, and the tick, whenever it comes, keeps it.
\<close>

theorem C8_janitor_tick:
  assumes "distinct (map fst (Queries s))"
  shows "Queries (cleanup now s) = kept_entries now (Queries s) \<and>
    (\<forall>e\<in>set (Queries s). past_due now (snd e) \<longrightarrow>
        SendClose (snd e) \<in> set (calls (cleanup now s)) \<and> e \<notin> set (Queries (cleanup now s))) \<and>
    cleanup now s =
      (if due_entries now (Queries s) \<noteq> []
       then changed_sys (s\<lparr>calls := calls s @ close_calls (due_entries now (Queries s)),
                           Queries := kept_entries now (Queries s)\<rparr>)
       else s) \<and>
    (\<exists>hs. calls (cleanup now s)
            = calls s @ close_calls (due_entries now (Queries s)) @ map (\<lambda>h. Notify (cb_id h)) hs \<and>
          set hs \<subseteq> set (stateHooks s)) \<and>
    (due_entries now (Queries s) \<noteq> [] \<longrightarrow>
        snapshot (cleanup now s) = snapshot_of (kept_entries now (Queries s)) \<and>
        ((\<forall>h\<in>set (stateHooks s). cb_releases h = []) \<longrightarrow>
           calls (cleanup now s)
             = calls s @ close_calls (due_entries now (Queries s))
                 @ map (\<lambda>h. Notify (cb_id h)) (stateHooks s))) \<and>
    (Map_get (Queries s) k = Some q \<and> \<not> leaveOpen q \<and> t \<noteq> 0 \<and> t < now \<longrightarrow>
        (let c = CancelQuery t s k
         in \<not> Map_has (Queries (cleanup now c)) k \<and>
            cleanup now c =
              changed_sys (c\<lparr>calls := calls c @ close_calls (due_entries now (Queries c)),
                             Queries := kept_entries now (Queries c)\<rparr>))) \<and>
    (Map_get (Queries s) k = Some q \<and> rb_id req = k \<longrightarrow>
        Map_has (Queries (cleanup now (snd (QueryReq ty (Some req) (CancelQuery t s k))))) k)"
proof -
  let ?due = "due_entries now (Queries s)"
  let ?kept = "kept_entries now (Queries s)"
  let ?s1 = "s\<lparr>calls := calls s @ close_calls ?due, Queries := ?kept\<rparr>"
  have eq: "cleanup now s = (if ?due \<noteq> [] then changed_sys ?s1 else s)"
    by (rule cleanup_eq [OF assms])
  have kept_nil: "?kept = Queries s" if "?due = []"
    using that unfolding due_entries_def kept_entries_def by (simp add: filter_empty_conv)
  have qs: "Queries (cleanup now s) = ?kept"
    using kept_nil by (simp add: eq changed_sys_frame)
  obtain hs where hs: "calls (changed_sys ?s1) = calls ?s1 @ map (\<lambda>h. Notify (cb_id h)) hs"
    "set hs \<subseteq> set (stateHooks ?s1)"
    using changed_sys_calls [of ?s1] by blast
  have cs: "\<exists>hs. calls (cleanup now s) = calls s @ close_calls ?due @ map (\<lambda>h. Notify (cb_id h)) hs \<and>
                set hs \<subseteq> set (stateHooks s)"
  proof (cases "?due = []")
    case True
    have "calls s = calls s @ close_calls [] @ map (\<lambda>h. Notify (cb_id h)) [] \<and>
          set ([] :: HookSystemSnapshot list) \<subseteq> set (stateHooks s)"
      by (simp add: close_calls_def)
    then show ?thesis using True by (simp add: eq close_calls_def)
  next
    case False
    with hs show ?thesis by (auto simp: eq)
  qed
  have each: "\<forall>e\<in>set (Queries s). past_due now (snd e) \<longrightarrow>
      SendClose (snd e) \<in> set (calls (cleanup now s)) \<and> e \<notin> set (Queries (cleanup now s))"
  proof (intro ballI impI)
    fix e assume e: "e \<in> set (Queries s)" "past_due now (snd e)"
    then have "e \<in> set ?due" by (simp add: due_entries_def)
    then have "SendClose (snd e) \<in> set (close_calls ?due)" by (rule SendClose_in_close_calls)
    with cs have "SendClose (snd e) \<in> set (calls (cleanup now s))" by auto
    moreover have "e \<notin> set (Queries (cleanup now s))" using e by (simp add: qs kept_entries_def)
    ultimately show "SendClose (snd e) \<in> set (calls (cleanup now s)) \<and>
                     e \<notin> set (Queries (cleanup now s))" ..
  qed
  have pub: "snapshot (cleanup now s) = snapshot_of ?kept \<and>
     ((\<forall>h\<in>set (stateHooks s). cb_releases h = []) \<longrightarrow>
        calls (cleanup now s) = calls s @ close_calls ?due @ map (\<lambda>h. Notify (cb_id h)) (stateHooks s))"
    if "?due \<noteq> []"
  proof -
    have "calls (changed_sys ?s1) = calls s @ close_calls ?due @ map (\<lambda>h. Notify (cb_id h)) (stateHooks s)"
      if q: "\<forall>h\<in>set (stateHooks s). cb_releases h = []"
    proof -
      from q have "\<forall>h\<in>set (stateHooks ?s1). cb_releases h = []" by simp
      then show ?thesis by (simp add: changed_sys_quiet)
    qed
    with \<open>?due \<noteq> []\<close> show ?thesis by (simp add: eq changed_sys_frame)
  qed
  have cancelled: "let c = CancelQuery t s k
     in \<not> Map_has (Queries (cleanup now c)) k \<and>
        cleanup now c = changed_sys (c\<lparr>calls := calls c @ close_calls (due_entries now (Queries c)),
                                       Queries := kept_entries now (Queries c)\<rparr>)"
    if h: "Map_get (Queries s) k = Some q" "\<not> leaveOpen q" "t \<noteq> 0" "t < now"
  proof -
    define c where "c = CancelQuery t s k"
    have dc: "distinct (map fst (Queries c))"
      using assms by (simp add: c_def CancelQuery_keys)
    have gc: "Map_get (Queries c) k = Some (cancel t q)"
      by (simp add: c_def CancelQuery_registered [OF h(1)] Map_get_Map_set)
    have pd: "past_due now (cancel t q)"
      using h(2-4) by (simp add: past_due_def cancel_def)
    from gc have "(k, cancel t q) \<in> set (Queries c)" by (simp add: Map_get_def map_of_SomeD)
    with pd have "(k, cancel t q) \<in> set (due_entries now (Queries c))"
      by (simp add: due_entries_def)
    then have ne: "due_entries now (Queries c) \<noteq> []" by auto
    have e: "cleanup now c = changed_sys (c\<lparr>calls := calls c @ close_calls (due_entries now (Queries c)),
                                             Queries := kept_entries now (Queries c)\<rparr>)"
      using ne by (simp add: cleanup_eq [OF dc])
    have "\<not> Map_has (kept_entries now (Queries c)) k"
      unfolding kept_entries_def by (rule Map_has_filter_drop [OF dc gc]) (simp add: pd)
    then have "\<not> Map_has (Queries (cleanup now c)) k" by (simp add: e changed_sys_frame)
    with e show ?thesis unfolding Let_def c_def by simp
  qed
  have uncancelled:
    "Map_has (Queries (cleanup now (snd (QueryReq ty (Some req) (CancelQuery t s k))))) k"
    if h: "Map_get (Queries s) k = Some q" "rb_id req = k"
  proof -
    define c where "c = CancelQuery t s k"
    define u where "u = snd (QueryReq ty (Some req) c)"
    have gc: "Map_get (Queries c) (rb_id req) = Some (cancel t q)"
      by (simp add: c_def h(2) CancelQuery_registered [OF h(1)] Map_get_Map_set)
    from QueryReq_uncancels [OF gc, of ty] obtain q' where
      ku: "map fst (Queries u) = map fst (Queries c)" and
      gu: "Map_get (Queries u) k = Some q'" and op: "closingAt q' = None"
      unfolding u_def h(2) by blast
    have du: "distinct (map fst (Queries u))"
      using assms by (simp add: ku c_def CancelQuery_keys)
    have "\<not> past_due now q'" using op by (simp add: past_due_def)
    then have "Map_get (kept_entries now (Queries u)) k = Some q'"
      unfolding kept_entries_def by (intro Map_get_filter_keep [OF gu]) simp
    moreover have "Queries (cleanup now u) = kept_entries now (Queries u)"
    proof (cases "due_entries now (Queries u) = []")
      case True
      then have "kept_entries now (Queries u) = Queries u"
        unfolding due_entries_def kept_entries_def by (simp add: filter_empty_conv)
      with True show ?thesis by (simp add: cleanup_eq [OF du])
    next
      case False
      then show ?thesis by (simp add: cleanup_eq [OF du] changed_sys_frame)
    qed
    ultimately show ?thesis by (simp add: Map_has_def Map_get_def u_def c_def)
  qed
  from qs each eq cs pub cancelled uncancelled show ?thesis by blast
qed


lemma example_cancelled:
  "CancelQuery 1000 example_system ''abc''
     = example_system\<lparr>Queries := [(''abc'', cancel 1000 example_query)]\<rparr>"
  by (simp add: CancelQuery_def example_system_sel Map_get_def)

theorem C8_janitor_tick_witness:
  "distinct (map fst (Queries example_system)) \<and>
   distinct (map fst (Queries (CancelQuery 1000 example_system ''abc''))) \<and>
   Map_get (Queries example_system) ''abc'' = Some example_query \<and>
   \<not> leaveOpen example_query \<and> (1000 :: int) \<noteq> 0 \<and> (1000 :: int) < 2000 \<and>
   rb_id example_request = ''abc'' \<and>
   cleanup 2000 example_system = example_system \<and>
   \<not> Map_has (Queries (cleanup 2000 (CancelQuery 1000 example_system ''abc''))) ''abc'' \<and>
   Map_has (Queries (cleanup 2000 (snd (QueryReq \<lparr>loading = False\<rparr> (Some example_request)
              (CancelQuery 1000 example_system ''abc''))))) ''abc'' \<and>
   (''abc'', cancel 1000 example_query) \<in> set (Queries (CancelQuery 1000 example_system ''abc'')) \<and>
   past_due 2000 (cancel 1000 example_query) \<and>
   cb_releases example_hook = [] \<and>
   Queries (cleanup 2000 (CancelQuery 1000 example_system ''abc'')) = [] \<and>
   snapshot (cleanup 2000 (CancelQuery 1000 example_system ''abc'')) = snapshot_of [] \<and>
   calls (cleanup 2000 (CancelQuery 1000 example_system ''abc''))
     = [SendClose (cancel 1000 example_query), ConsoleDebug ''abc'', Notify 7]"
proof -
  have d1: "distinct (map fst (Queries example_system))"
    by (simp add: example_system_sel)
  have d2: "distinct (map fst (Queries (CancelQuery 1000 example_system ''abc'')))"
    by (simp add: example_cancelled)
  have g: "Map_get (Queries example_system) ''abc'' = Some example_query"
    by (simp add: example_system_sel Map_get_def)
  have l: "\<not> leaveOpen example_query" by (simp add: example_query_sel)
  have r: "rb_id example_request = ''abc''" by (simp add: example_request_def)
  have p: "past_due 2000 (cancel 1000 example_query)"
    by (simp add: past_due_def cancel_def example_query_sel)
  have n: "\<not> past_due 2000 example_query"
    by (simp add: past_due_def example_query_sel)
  have h: "cb_releases example_hook = []" "cb_id example_hook = 7"
    by (simp_all add: example_hook_def)
  note a = C8_janitor_tick [OF d1, of 2000 "''abc''" example_query 1000 example_request
      "\<lparr>loading = False\<rparr>"]
  note b = C8_janitor_tick [OF d2, of 2000 "''abc''" example_query 1000 example_request
      "\<lparr>loading = False\<rparr>"]
  have t: "(1000 :: int) \<noteq> 0" "(1000 :: int) < 2000" by simp_all
  have a1: "cleanup 2000 example_system = example_system"
    using conjunct1 [OF conjunct2 [OF conjunct2 [OF a]]] n
    by (simp add: due_entries_def example_system_sel)
  have a2: "\<not> Map_has (Queries (cleanup 2000 (CancelQuery 1000 example_system ''abc''))) ''abc''"
    using a g l t unfolding Let_def by blast
  have a3: "Map_has (Queries (cleanup 2000 (snd (QueryReq \<lparr>loading = False\<rparr>
              (Some example_request) (CancelQuery 1000 example_system ''abc''))))) ''abc''"
    using a g r by blast
  note a' = a1 a2 a3
  have m: "(''abc'', cancel 1000 example_query)
             \<in> set (Queries (CancelQuery 1000 example_system ''abc''))"
    by (simp add: example_cancelled)
  have due: "due_entries 2000 (Queries (CancelQuery 1000 example_system ''abc''))
               = [(''abc'', cancel 1000 example_query)]"
    using p by (simp add: due_entries_def example_cancelled)
  have kept: "kept_entries 2000 (Queries (CancelQuery 1000 example_system ''abc'')) = []"
    using p by (simp add: kept_entries_def example_cancelled)
  have sel: "calls (CancelQuery 1000 example_system ''abc'') = []"
    "stateHooks (CancelQuery 1000 example_system ''abc'') = [example_hook]"
    by (simp_all add: example_cancelled example_system_sel)
  have b': "Queries (cleanup 2000 (CancelQuery 1000 example_system ''abc'')) = [] \<and>
     snapshot (cleanup 2000 (CancelQuery 1000 example_system ''abc'')) = snapshot_of [] \<and>
     calls (cleanup 2000 (CancelQuery 1000 example_system ''abc''))
       = [SendClose (cancel 1000 example_query), ConsoleDebug ''abc'', Notify 7]"
    using conjunct1 [OF b] conjunct1 [OF conjunct2 [OF conjunct2 [OF conjunct2 [OF conjunct2 [OF b]]]]] h
    by (simp add: due kept sel close_calls_def)
  show ?thesis
    using a' b' d1 d2 g l r p m h by simp
qed

section \<open>The connection pool: properties\<close>

lemma keys_Map_set: "set (map fst (Map_set m k v)) = insert k (set (map fst m))"
proof (induction m)
  case Nil
  show ?case by simp
next
  case (Cons e m)
  obtain k' v' where e: "e = (k', v')" by (cases e)
  show ?case
  proof (cases "k' = k")
    case True
    then show ?thesis by (simp add: e)
  next
    case False
    with Cons show ?thesis by (simp add: e insert_commute)
  qed
qed

lemma distinct_Map_set: "distinct (map fst m) \<Longrightarrow> distinct (map fst (Map_set m k v))"
proof (induction m)
  case Nil
  show ?case by simp
next
  case (Cons e m)
  obtain k' v' where e: "e = (k', v')" by (cases e)
  show ?case
  proof (cases "k' = k")
    case True
    with Cons.prems show ?thesis by (simp add: e)
  next
    case False
    have "k' \<notin> set (map fst (Map_set m k v))"
      using Cons.prems False unfolding keys_Map_set by (simp add: e)
    with Cons False show ?thesis by (simp add: e)
  qed
qed

lemma Map_has_Map_set: "Map_has (Map_set m k v) k"
  using Map_get_Map_set [of m k v] by (simp add: Map_has_def Map_get_def)

lemma one_entry_per_key:
  "distinct (map fst m) \<Longrightarrow> Map_has m k \<Longrightarrow> length (filter (\<lambda>e. fst e = k) m) = 1"
proof (induction m)
  case Nil
  then show ?case by (simp add: Map_has_def)
next
  case (Cons e m)
  show ?case
  proof (cases "fst e = k")
    case True
    with Cons.prems(1) have "k \<notin> fst ` set m" by auto
    then have "filter (\<lambda>e. fst e = k) m = []" by (auto simp: filter_empty_conv)
    with True show ?thesis by simp
  next
    case False
    with Cons.prems(2) have "Map_has m k" by (cases e) (simp add: Map_has_def)
    with Cons False show ?thesis by simp
  qed
qed

lemma ConnectToRelay_malformed:
  "sanitizeRelayUrl a = None \<Longrightarrow>
   ConnectToRelay sanitizeRelayUrl s a opts = s\<lparr>calls := calls s @ [ConsoleError]\<rparr>"
  by (simp add: ConnectToRelay_def)

lemma ConnectToRelay_absent:
  assumes "sanitizeRelayUrl a = Some n" and "\<not> Map_has (Sockets s) n"
  shows "ConnectToRelay sanitizeRelayUrl s a opts =
         s\<lparr>Sockets := Sockets s @ [(n, new_Connection n opts False)],
           calls := calls s @ [NewConnection (new_Connection n opts False),
                               Connect (new_Connection n opts False)]\<rparr>"
proof -
  from assms(2) have "Map_get (Sockets s) n = None" by (simp add: Map_has_def Map_get_def)
  then have "Map_set (Sockets s) n (new_Connection n opts False)
               = Sockets s @ [(n, new_Connection n opts False)]"
    by (rule Map_set_absent)
  with assms show ?thesis by (simp add: ConnectToRelay_def Let_def)
qed

lemma ConnectToRelay_present:
  assumes "sanitizeRelayUrl a = Some n" and "Map_get (Sockets s) n = Some c"
  shows "ConnectToRelay sanitizeRelayUrl s a opts =
         s\<lparr>Sockets := Map_set (Sockets s) n (c\<lparr>Settings := opts\<rparr>)\<rparr>"
  using assms by (simp add: ConnectToRelay_def Map_has_def Map_get_def)

lemma ConnectToRelay_distinct:
  assumes "distinct (map fst (Sockets s))"
  shows "distinct (map fst (Sockets (ConnectToRelay sanitizeRelayUrl s a opts)))"
proof (cases "sanitizeRelayUrl a")
  case None
  with assms show ?thesis by (simp add: ConnectToRelay_malformed)
next
  case (Some n)
  show ?thesis
  proof (cases "Map_get (Sockets s) n")
    case None
    then have "\<not> Map_has (Sockets s) n" by (simp add: Map_has_def Map_get_def)
    with Some None assms show ?thesis
      by (simp add: ConnectToRelay_def Let_def distinct_Map_set)
  next
    case (Some c)
    with \<open>sanitizeRelayUrl a = Some n\<close> assms show ?thesis
      by (simp add: ConnectToRelay_present distinct_Map_set)
  qed
qed

lemma ConnectEphemeralRelay_distinct:
  assumes "distinct (map fst (Sockets s))"
  shows "distinct (map fst (Sockets (snd (ConnectEphemeralRelay sanitizeRelayUrl s a))))"
  using assms
  by (cases "sanitizeRelayUrl a")
     (simp_all add: ConnectEphemeralRelay_def Let_def distinct_Map_set)

lemma ConnectToRelay_tracks:
  assumes "sanitizeRelayUrl a = Some n"
  shows "Map_has (Sockets (ConnectToRelay sanitizeRelayUrl s a opts)) n"
proof (cases "Map_get (Sockets s) n")
  case None
  then have "\<not> Map_has (Sockets s) n" by (simp add: Map_has_def Map_get_def)
  with assms show ?thesis by (simp add: ConnectToRelay_def Let_def Map_has_Map_set)
next
  case (Some c)
  with assms show ?thesis by (simp add: ConnectToRelay_present Map_has_Map_set)
qed

text \<open>
  Claim C7.  The pool is a \<open>Map\<close>: its keys are distinct, and every call of
  \<open>ConnectToRelay\<close> keeps them distinct, whatever the address.  For two calls whose
  addresses normalise to the same string \<open>n\<close>, the pool holds exactly one entry for
  \<open>n\<close> after the first call and after the second.  The first call, when \<open>n\<close> is not yet
  in the pool, constructs the connection, appends it under \<open>n\<close> and calls \<open>Connect\<close>.
  The second call constructs nothing and calls nothing: it assigns the new settings to the
  connection stored under \<open>n\<close>, which keeps its place and its other fields, and the keys
  of the pool are what they were.
\<close>

theorem C7_one_connection_per_address:
  assumes "distinct (map fst (Sockets s))"
    and "sanitizeRelayUrl a1 = Some n"
    and "sanitizeRelayUrl a2 = Some n"
  shows "let s1 = ConnectToRelay sanitizeRelayUrl s a1 o1;
             s2 = ConnectToRelay sanitizeRelayUrl s1 a2 o2
         in distinct (map fst (Sockets (ConnectToRelay sanitizeRelayUrl s a opts))) \<and>
            distinct (map fst (Sockets s1)) \<and> distinct (map fst (Sockets s2)) \<and>
            length (filter (\<lambda>e. fst e = n) (Sockets s1)) = 1 \<and>
            length (filter (\<lambda>e. fst e = n) (Sockets s2)) = 1 \<and>
            (\<not> Map_has (Sockets s) n \<longrightarrow>
               Sockets s1 = Sockets s @ [(n, new_Connection n o1 False)] \<and>
               calls s1 = calls s @ [NewConnection (new_Connection n o1 False),
                                     Connect (new_Connection n o1 False)]) \<and>
            (\<exists>c. Map_get (Sockets s1) n = Some c \<and>
                 s2 = s1\<lparr>Sockets := Map_set (Sockets s1) n (c\<lparr>Settings := o2\<rparr>)\<rparr> \<and>
                 Map_get (Sockets s2) n = Some (c\<lparr>Settings := o2\<rparr>)) \<and>
            map fst (Sockets s2) = map fst (Sockets s1) \<and>
            calls s2 = calls s1"
proof -
  define s1 where "s1 = ConnectToRelay sanitizeRelayUrl s a1 o1"
  define s2 where "s2 = ConnectToRelay sanitizeRelayUrl s1 a2 o2"
  have d0: "distinct (map fst (Sockets (ConnectToRelay sanitizeRelayUrl s a opts)))"
    by (rule ConnectToRelay_distinct [OF assms(1)])
  have d1: "distinct (map fst (Sockets s1))"
    unfolding s1_def by (rule ConnectToRelay_distinct [OF assms(1)])
  have d2: "distinct (map fst (Sockets s2))"
    unfolding s2_def by (rule ConnectToRelay_distinct [OF d1])
  have t1: "Map_has (Sockets s1) n"
    unfolding s1_def using assms(2) by (rule ConnectToRelay_tracks)
  have t2: "Map_has (Sockets s2) n"
    unfolding s2_def using assms(3) by (rule ConnectToRelay_tracks)
  from t1 obtain c where c: "Map_get (Sockets s1) n = Some c"
    by (auto simp: Map_has_def Map_get_def)
  have e2: "s2 = s1\<lparr>Sockets := Map_set (Sockets s1) n (c\<lparr>Settings := o2\<rparr>)\<rparr>"
    unfolding s2_def using assms(3) c by (rule ConnectToRelay_present)
  have g2: "Map_get (Sockets s2) n = Some (c\<lparr>Settings := o2\<rparr>)"
    by (subst e2) (simp add: Map_get_Map_set)
  have k2: "map fst (Sockets s2) = map fst (Sockets s1)"
    by (subst e2) (simp add: keys_Map_set_present [OF c])
  have c2: "calls s2 = calls s1" by (subst e2) simp
  have first: "Sockets s1 = Sockets s @ [(n, new_Connection n o1 False)] \<and>
               calls s1 = calls s @ [NewConnection (new_Connection n o1 False),
                                     Connect (new_Connection n o1 False)]"
    if "\<not> Map_has (Sockets s) n"
    unfolding s1_def using assms(2) that by (simp add: ConnectToRelay_absent)
  have ex: "\<exists>c. Map_get (Sockets s1) n = Some c \<and>
                s2 = s1\<lparr>Sockets := Map_set (Sockets s1) n (c\<lparr>Settings := o2\<rparr>)\<rparr> \<and>
                Map_get (Sockets s2) n = Some (c\<lparr>Settings := o2\<rparr>)"
    using c e2 g2 by blast
  show ?thesis
    unfolding Let_def s1_def [symmetric] s2_def [symmetric]
    using d0 d1 d2 one_entry_per_key [OF d1 t1] one_entry_per_key [OF d2 t2] first ex k2 c2
    by blast
qed

theorem C7_one_connection_per_address_witness:
  "distinct (map fst (Sockets new_NostrSystem)) \<and>
   example_sanitizeRelayUrl ''wss://relay.example'' = Some ''wss://relay.example/'' \<and>
   example_sanitizeRelayUrl ''wss://relay.example/'' = Some ''wss://relay.example/'' \<and>
   \<not> Map_has (Sockets new_NostrSystem) ''wss://relay.example/'' \<and>
   Sockets (ConnectToRelay example_sanitizeRelayUrl new_NostrSystem ''wss://relay.example''
              example_settings)
     = [(''wss://relay.example/'', new_Connection ''wss://relay.example/'' example_settings False)] \<and>
   ConnectToRelay example_sanitizeRelayUrl
     (ConnectToRelay example_sanitizeRelayUrl new_NostrSystem ''wss://relay.example''
        example_settings)
     ''wss://relay.example/'' \<lparr>read_s = True, write_s = True\<rparr>
     = new_NostrSystem
         \<lparr>Sockets := [(''wss://relay.example/'',
                       new_Connection ''wss://relay.example/'' \<lparr>read_s = True, write_s = True\<rparr>
                         False)],
          calls := [NewConnection (new_Connection ''wss://relay.example/'' example_settings False),
                    Connect (new_Connection ''wss://relay.example/'' example_settings False)]\<rparr>"
proof -
  have d: "distinct (map fst (Sockets new_NostrSystem))" by (simp add: new_NostrSystem_def)
  have n1: "example_sanitizeRelayUrl ''wss://relay.example'' = Some ''wss://relay.example/''"
    by (simp add: example_sanitizeRelayUrl_def)
  have n2: "example_sanitizeRelayUrl ''wss://relay.example/'' = Some ''wss://relay.example/''"
    by (simp add: example_sanitizeRelayUrl_def)
  have a: "\<not> Map_has (Sockets new_NostrSystem) ''wss://relay.example/''"
    by (simp add: new_NostrSystem_def Map_has_def)
  have s: "Sockets new_NostrSystem = []" "calls new_NostrSystem = []"
    by (simp_all add: new_NostrSystem_def)
  note t = C7_one_connection_per_address [where s = new_NostrSystem
      and sanitizeRelayUrl = example_sanitizeRelayUrl and ?a1.0 = "''wss://relay.example''"
      and ?a2.0 = "''wss://relay.example/''" and n = "''wss://relay.example/''"
      and ?o1.0 = example_settings and ?o2.0 = "\<lparr>read_s = True, write_s = True\<rparr>"
      and a = "''x''" and opts = example_settings, OF d n1 n2, unfolded Let_def]
  from t a have first:
    "Sockets (ConnectToRelay example_sanitizeRelayUrl new_NostrSystem ''wss://relay.example''
                example_settings)
       = [(''wss://relay.example/'', new_Connection ''wss://relay.example/'' example_settings False)]"
    "calls (ConnectToRelay example_sanitizeRelayUrl new_NostrSystem ''wss://relay.example''
                example_settings)
       = [NewConnection (new_Connection ''wss://relay.example/'' example_settings False),
          Connect (new_Connection ''wss://relay.example/'' example_settings False)]"
    by (simp_all add: s)
  show ?thesis
    using d n1 n2 a first
    by (simp add: ConnectToRelay_def Let_def Map_has_def Map_get_def new_Connection_def
          new_NostrSystem_def)
qed

section \<open>Disconnecting and cancelling\<close>

lemma Map_get_Map_delete: "Map_get (Map_delete m k) k = None"
  by (induction m) (auto simp: Map_get_def Map_delete_def)

lemma DisconnectRelay_untracked:
  "Map_get (Sockets s) address = None \<Longrightarrow> DisconnectRelay s address = s"
  by (simp add: DisconnectRelay_def)

lemma DisconnectRelay_tracked:
  "Map_get (Sockets s) address = Some c \<Longrightarrow>
   DisconnectRelay s address
     = s\<lparr>Sockets := Map_delete (Sockets s) address, calls := calls s @ [Close c]\<rparr>"
  by (simp add: DisconnectRelay_def)

lemma DisconnectRelay_idempotent:
  "DisconnectRelay (DisconnectRelay s address) address = DisconnectRelay s address"
proof (cases "Map_get (Sockets s) address")
  case None
  then show ?thesis by (simp add: DisconnectRelay_untracked)
next
  case (Some c)
  then show ?thesis
    by (simp add: DisconnectRelay_tracked) (simp add: DisconnectRelay_def Map_get_Map_delete)
qed

text \<open>
  Claim C9.  \<open>DisconnectRelay\<close> looks its argument up as it is, while \<open>ConnectToRelay\<close>
  stores the connection under the normalised address.  On an empty pool, connecting to
  \<open>wss://relay.example\<close>, which normalises to \<open>wss://relay.example/\<close>, and then
  disconnecting \<open>wss://relay.example\<close> leaves the connection in the pool and calls no
  \<open>Close\<close>: the state after the disconnect is the state before it.
\<close>

theorem C9_disconnect_does_not_normalise:
  "example_sanitizeRelayUrl ''wss://relay.example'' = Some ''wss://relay.example/'' \<and>
   Map_get (Sockets (ConnectToRelay example_sanitizeRelayUrl new_NostrSystem
                       ''wss://relay.example'' example_settings)) ''wss://relay.example/''
     = Some (new_Connection ''wss://relay.example/'' example_settings False) \<and>
   DisconnectRelay
     (ConnectToRelay example_sanitizeRelayUrl new_NostrSystem ''wss://relay.example''
        example_settings)
     ''wss://relay.example''
     = ConnectToRelay example_sanitizeRelayUrl new_NostrSystem ''wss://relay.example''
         example_settings"
  by (simp add: example_sanitizeRelayUrl_def ConnectToRelay_def DisconnectRelay_def Let_def
        Map_has_def Map_get_def new_NostrSystem_def)

lemma CancelQuery_publishes_nothing:
  "snapshot (CancelQuery now s sub) = snapshot s \<and> calls (CancelQuery now s sub) = calls s \<and>
   stateHooks (CancelQuery now s sub) = stateHooks s"
  by (cases "Map_get (Queries s) sub") (simp_all add: CancelQuery_def)

lemma AddQuery_publishes:
  "snapshot (snd (AddQuery ty rb s)) = snapshot_of (Queries (snd (AddQuery ty rb s)))"
  by (simp add: AddQuery_def new_store_def Let_def changed_sys_frame SendQuery_frame
      split: option.splits)

text \<open>
  Claim C5.  \<open>CancelQuery\<close> changes the query and nothing else: it builds no snapshot and
  calls no hook.  In the example system, whose published snapshot is current and which has
  one hook, cancelling the query \<open>abc\<close> at time 1000 makes the query closing, calls
  nothing, and leaves the published snapshot as it was, so that it now differs from the
  snapshot of the registry.
\<close>

theorem C5_cancel_publishes_nothing:
  "snapshot example_system = snapshot_of (Queries example_system) \<and>
   stateHooks example_system = [example_hook] \<and>
   Map_get (Queries example_system) ''abc'' = Some example_query \<and>
   Map_get (Queries (CancelQuery 1000 example_system ''abc'')) ''abc''
     = Some (cancel 1000 example_query) \<and>
   closing (cancel 1000 example_query) \<and>
   calls (CancelQuery 1000 example_system ''abc'') = calls example_system \<and>
   snapshot (CancelQuery 1000 example_system ''abc'') = snapshot example_system \<and>
   snapshot (CancelQuery 1000 example_system ''abc'')
     \<noteq> snapshot_of (Queries (CancelQuery 1000 example_system ''abc''))"
  by (simp add: example_cancelled example_system_sel Map_get_def snapshot_of_def
        snapshot_entry_def closing_def cancel_def example_query_sel)

section \<open>The notification round under release\<close>

lemma example_two_hooks_sel:
  "stateHooks example_two_hooks = [example_self_releasing_hook, example_other_hook]"
  "calls example_two_hooks = []" "Queries example_two_hooks = []"
  by (simp_all add: example_two_hooks_def hook_def new_NostrSystem_def)

lemma example_self_releasing_hook_releases:
  "cb_releases example_self_releasing_hook = [cb_id example_self_releasing_hook]"
  by (simp add: example_self_releasing_hook_def)

lemma release_self_example:
  "release (cb_id example_self_releasing_hook) [example_self_releasing_hook, example_other_hook]
     = [example_other_hook]"
  by (simp add: release_def splice1_def example_self_releasing_hook_def example_other_hook_def)

lemma example_round:
  "changed_sys example_two_hooks =
     example_two_hooks\<lparr>snapshot := snapshot_of [],
                       calls := [Notify (cb_id example_self_releasing_hook)],
                       stateHooks := [example_other_hook]\<rparr>"
proof -
  let ?s0 = "example_two_hooks\<lparr>snapshot := snapshot_of []\<rparr>"
  let ?s1 = "?s0\<lparr>calls := [Notify (cb_id example_self_releasing_hook)],
                 stateHooks := [example_other_hook]\<rparr>"
  have c: "call_hook example_self_releasing_hook ?s0 = ?s1"
    by (simp add: call_hook_def example_two_hooks_sel example_self_releasing_hook_releases
          release_self_example)
  have "notify_from 0 ?s0 = notify_from (Suc 0) ?s1"
    by (subst notify_from.simps) (simp add: example_two_hooks_sel c)
  also have "\<dots> = ?s1" by (rule notify_from_end) simp
  finally show ?thesis by (simp add: changed_sys_def example_two_hooks_sel)
qed

text \<open>
  Claim C4, as stated, fails.  With two hooks registered, the first of which releases
  itself when it is called, a round calls the first hook only: the release shortens the
  list under the iterator, and the second hook, registered and never released, is
  skipped.  A round over a copy taken at its start would call both.
\<close>

theorem C4_stable_copy_counterexample:
  "stateHooks example_two_hooks = [example_self_releasing_hook, example_other_hook] \<and>
   calls example_two_hooks = [] \<and>
   calls (changed_sys example_two_hooks) = [Notify (cb_id example_self_releasing_hook)] \<and>
   Notify (cb_id example_other_hook) \<notin> set (calls (changed_sys example_two_hooks)) \<and>
   stateHooks (changed_sys example_two_hooks) = [example_other_hook]"
  by (simp add: example_round example_two_hooks_sel)
     (simp add: example_self_releasing_hook_def example_other_hook_def)


lemma findIndex_first:
  assumes "\<forall>x\<in>set pre. \<not> P x" and "P y"
  shows "findIndex P (pre @ y # post) = int (length pre)"
  using assms by (induction pre) simp_all

lemma splice1_at: "splice1 (int (length pre)) (pre @ y # post) = pre @ post"
  by (simp add: splice1_def Let_def)

lemma release_registered_once:
  assumes "cb_id cb \<notin> cb_id ` set pre"
  shows "release (cb_id cb) (pre @ cb # post) = pre @ post"
proof -
  have "findIndex (\<lambda>a. cb_id a = cb_id cb) (pre @ cb # post) = int (length pre)"
  proof (rule findIndex_first)
    show "\<forall>x\<in>set pre. \<not> cb_id x = cb_id cb"
    proof
      fix x assume "x \<in> set pre"
      then have "cb_id x \<in> cb_id ` set pre" by (rule imageI)
      with assms show "\<not> cb_id x = cb_id cb" by metis
    qed
    show "cb_id cb = cb_id cb" ..
  qed
  then show ?thesis by (simp add: release_def splice1_at)
qed

lemma self_release_round:
  assumes hooks: "stateHooks s = pre @ cb # post"
    and quiet: "\<forall>h\<in>set pre. cb_releases h = []"
    and self: "cb_releases cb = [cb_id cb]"
    and once: "cb_id cb \<notin> cb_id ` set pre"
  shows "\<exists>hs :: HookSystemSnapshot list. calls (notify_from 0 s)
               = calls s @ map (\<lambda>h. Notify (cb_id h)) pre @ Notify (cb_id cb)
                   # map (\<lambda>h. Notify (cb_id h)) hs \<and>
              set (stateHooks (notify_from 0 s)) \<subseteq> set pre \<union> set post"
proof -
  define s1 where "s1 = s\<lparr>calls := calls s @ map (\<lambda>h. Notify (cb_id h)) pre\<rparr>"
  define s2 where "s2 = call_hook cb s1"
  have q: "cb_releases (stateHooks s ! j) = []" if "j < length pre" for j
    using that quiet by (simp add: hooks nth_append)
  have "notify_from 0 s = notify_from (length pre)
          (s\<lparr>calls := calls s @ map (\<lambda>h. Notify (cb_id h))
                                   (take (length pre - 0) (drop 0 (stateHooks s)))\<rparr>)"
    using q by (intro notify_from_quiet_range) (simp_all add: hooks)
  then have a: "notify_from 0 s = notify_from (length pre) s1"
    by (simp add: s1_def hooks)
  have b: "notify_from (length pre) s1 = notify_from (Suc (length pre)) s2"
    unfolding s2_def by (subst notify_from.simps) (simp add: s1_def hooks)
  have h2: "stateHooks s2 = pre @ post"
    by (simp add: s2_def call_hook_def s1_def hooks self release_registered_once [OF once])
  have c2: "calls s2 = calls s @ map (\<lambda>h. Notify (cb_id h)) pre @ [Notify (cb_id cb)]"
    by (simp add: s2_def calls_call_hook s1_def)
  obtain hs :: "HookSystemSnapshot list" where
    "calls (notify_from (Suc (length pre)) s2) = calls s2 @ map (\<lambda>h. Notify (cb_id h)) hs"
    "set (stateHooks (notify_from (Suc (length pre)) s2)) \<subseteq> set (stateHooks s2)"
    using notify_from_calls [of "Suc (length pre)" s2] by blast
  then have "calls (notify_from 0 s)
               = calls s @ map (\<lambda>h. Notify (cb_id h)) pre @ Notify (cb_id cb)
                   # map (\<lambda>h. Notify (cb_id h)) hs \<and>
             set (stateHooks (notify_from 0 s)) \<subseteq> set pre \<union> set post"
    by (simp add: a b h2 c2)
  then show ?thesis by blast
qed

text \<open>
  Claim C4, as amended.  A notification round walks the hook list itself, by position; no
  copy is taken.  When no hook releases a hook during the round, every registered hook is
  called exactly once, in registration order, and the list is what it was.  A hook that is
  registered once, that releases itself when it is called and that stands behind hooks
  that release nothing is called in that round, is no longer in the list when the round
  ends, and is not called in the next round.
\<close>

theorem C4_round_over_live_list:
  "((\<forall>h\<in>set (stateHooks s). cb_releases h = []) \<longrightarrow>
      calls (changed_sys s) = calls s @ map (\<lambda>h. Notify (cb_id h)) (stateHooks s) \<and>
      stateHooks (changed_sys s) = stateHooks s) \<and>
   (stateHooks s = pre @ cb # post \<and> (\<forall>h\<in>set pre. cb_releases h = []) \<and>
    cb_releases cb = [cb_id cb] \<and> cb_id cb \<notin> cb_id ` set pre \<and> cb_id cb \<notin> cb_id ` set post \<longrightarrow>
      (\<exists>rest. calls (changed_sys s)
                = calls s @ map (\<lambda>h. Notify (cb_id h)) pre @ Notify (cb_id cb) # rest) \<and>
      cb_id cb \<notin> cb_id ` set (stateHooks (changed_sys s)) \<and>
      Notify (cb_id cb)
        \<notin> set (drop (length (calls (changed_sys s))) (calls (changed_sys (changed_sys s)))))"
proof (intro conjI impI)
  assume "\<forall>h\<in>set (stateHooks s). cb_releases h = []"
  then show "calls (changed_sys s) = calls s @ map (\<lambda>h. Notify (cb_id h)) (stateHooks s)"
    and "stateHooks (changed_sys s) = stateHooks s"
    by (simp_all add: changed_sys_quiet)
next
  assume h: "stateHooks s = pre @ cb # post \<and> (\<forall>h\<in>set pre. cb_releases h = []) \<and>
    cb_releases cb = [cb_id cb] \<and> cb_id cb \<notin> cb_id ` set pre \<and> cb_id cb \<notin> cb_id ` set post"
  define s0 where "s0 = s\<lparr>snapshot := snapshot_of (Queries s)\<rparr>"
  have "stateHooks s0 = pre @ cb # post" using h by (simp add: s0_def)
  with h obtain hs :: "HookSystemSnapshot list" where
    c: "calls (notify_from 0 s0)
          = calls s0 @ map (\<lambda>h. Notify (cb_id h)) pre @ Notify (cb_id cb)
              # map (\<lambda>h. Notify (cb_id h)) hs"
    and r: "set (stateHooks (notify_from 0 s0)) \<subseteq> set pre \<union> set post"
    using self_release_round [of s0 pre cb post] by blast
  have e: "changed_sys s = notify_from 0 s0" by (simp add: changed_sys_def s0_def)
  show "\<exists>rest. calls (changed_sys s)
                = calls s @ map (\<lambda>h. Notify (cb_id h)) pre @ Notify (cb_id cb) # rest"
    using c by (simp add: e s0_def)
  show gone: "cb_id cb \<notin> cb_id ` set (stateHooks (changed_sys s))"
    using r h unfolding e by blast
  obtain hs2 where
    c2: "calls (changed_sys (changed_sys s))
           = calls (changed_sys s) @ map (\<lambda>h. Notify (cb_id h)) hs2"
    and r2: "set hs2 \<subseteq> set (stateHooks (changed_sys s))"
    using changed_sys_calls [of "changed_sys s"] by blast
  have "Notify (cb_id cb) \<notin> set (map (\<lambda>h. Notify (cb_id h)) hs2)"
    using gone r2 by auto
  then show "Notify (cb_id cb)
      \<notin> set (drop (length (calls (changed_sys s))) (calls (changed_sys (changed_sys s))))"
    by (simp add: c2)
qed

theorem C4_round_over_live_list_witness:
  "cb_releases example_hook = [] \<and>
   stateHooks example_system = [example_hook] \<and>
   calls (changed_sys example_system) = [Notify (cb_id example_hook)] \<and>
   stateHooks (changed_sys example_system) = [example_hook] \<and>
   stateHooks example_two_hooks = [] @ example_self_releasing_hook # [example_other_hook] \<and>
   cb_releases example_self_releasing_hook = [cb_id example_self_releasing_hook] \<and>
   cb_id example_self_releasing_hook \<noteq> cb_id example_other_hook \<and>
   (\<exists>rest. calls (changed_sys example_two_hooks)
             = Notify (cb_id example_self_releasing_hook) # rest) \<and>
   cb_id example_self_releasing_hook
     \<notin> cb_id ` set (stateHooks (changed_sys example_two_hooks)) \<and>
   Notify (cb_id example_self_releasing_hook)
     \<notin> set (drop (length (calls (changed_sys example_two_hooks)))
              (calls (changed_sys (changed_sys example_two_hooks))))"
proof -
  have q: "cb_releases example_hook = []" by (simp add: example_hook_def)
  have n: "cb_id example_self_releasing_hook \<noteq> cb_id example_other_hook"
    by (simp add: example_self_releasing_hook_def example_other_hook_def)
  have a: "calls (changed_sys example_system) = [Notify (cb_id example_hook)] \<and>
           stateHooks (changed_sys example_system) = [example_hook]"
    using conjunct1 [OF C4_round_over_live_list [of example_system]] q
    by (simp add: example_system_sel)
  have b: "(\<exists>rest. calls (changed_sys example_two_hooks)
             = Notify (cb_id example_self_releasing_hook) # rest) \<and>
     cb_id example_self_releasing_hook
       \<notin> cb_id ` set (stateHooks (changed_sys example_two_hooks)) \<and>
     Notify (cb_id example_self_releasing_hook)
       \<notin> set (drop (length (calls (changed_sys example_two_hooks)))
                (calls (changed_sys (changed_sys example_two_hooks))))"
    using conjunct2 [OF C4_round_over_live_list [of example_two_hooks "[]"
          example_self_releasing_hook "[example_other_hook]"]] n
    by (simp add: example_two_hooks_sel example_self_releasing_hook_releases)
  show ?thesis
    using a b q n
    by (simp add: example_system_sel example_two_hooks_sel example_self_releasing_hook_releases)
qed

section \<open>Writing one event: properties\<close>

lemma write_once_run_append:
  "write_once_run w (xs @ ys) = write_once_run (write_once_run w xs) ys"
  by (simp add: write_once_run_def)

lemma write_once_run_Cons:
  "write_once_run w (x # xs) = write_once_run (write_once_step w x) xs"
  by (simp add: write_once_run_def)

lemma write_once_run_Nil: "write_once_run w [] = w"
  by (simp add: write_once_run_def)

lemma settled_stays:
  "wo_promise w \<noteq> Pending \<Longrightarrow> wo_promise (write_once_run w os) = wo_promise w"
proof (induction os arbitrary: w)
  case Nil
  show ?case by (simp add: write_once_run_Nil)
next
  case (Cons x os)
  have "wo_promise (write_once_step w x) = wo_promise w"
    using Cons.prems by (cases x) (simp_all add: settle_def)
  with Cons show ?case by (simp add: write_once_run_Cons)
qed

lemma not_connected_invariant:
  assumes "OnConnected \<notin> set os" and "\<not> awaiting_send w"
    and "wo_promise w = (if timer_set w then Pending else Rejected None)"
  shows "\<not> awaiting_send (write_once_run w os) \<and>
         wo_promise (write_once_run w os)
           = (if timer_set (write_once_run w os) then Pending else Rejected None)"
  using assms
proof (induction os arbitrary: w)
  case Nil
  then show ?case by (simp add: write_once_run_Nil)
next
  case (Cons x os)
  from Cons.prems(1) have x: "x \<noteq> OnConnected" and os: "OnConnected \<notin> set os" by auto
  have "\<not> awaiting_send (write_once_step w x) \<and>
        wo_promise (write_once_step w x)
          = (if timer_set (write_once_step w x) then Pending else Rejected None)"
    using x Cons.prems(2,3) by (cases x) (simp_all add: settle_def)
  with Cons.IH [OF os] show ?case by (simp add: write_once_run_Cons)
qed

lemma not_elapsed_invariant:
  assumes "FiveSecondsElapsed \<notin> set os" and "wo_promise w \<in> {Pending, Resolved}"
  shows "wo_promise (write_once_run w os) \<in> {Pending, Resolved}"
  using assms
proof (induction os arbitrary: w)
  case Nil
  then show ?case by (simp add: write_once_run_Nil)
next
  case (Cons x os)
  from Cons.prems(1) have x: "x \<noteq> FiveSecondsElapsed" and os: "FiveSecondsElapsed \<notin> set os"
    by auto
  have "wo_promise (write_once_step w x) \<in> {Pending, Resolved}"
    using x Cons.prems(2) by (cases x) (auto simp: settle_def)
  with Cons.IH [OF os] show ?case by (simp add: write_once_run_Cons)
qed

lemma timer_cleared_invariant:
  assumes "\<not> timer_set w" and "wo_promise w \<in> {Pending, Resolved}"
  shows "\<not> timer_set (write_once_run w os) \<and> wo_promise (write_once_run w os) \<in> {Pending, Resolved}"
  using assms
proof (induction os arbitrary: w)
  case Nil
  then show ?case by (simp add: write_once_run_Nil)
next
  case (Cons x os)
  have "\<not> timer_set (write_once_step w x) \<and> wo_promise (write_once_step w x) \<in> {Pending, Resolved}"
    using Cons.prems by (cases x) (auto simp: settle_def)
  with Cons.IH show ?case by (simp add: write_once_run_Cons)
qed

lemma awaiting_invariant:
  assumes "SendAcknowledged \<notin> set os" and "awaiting_send w"
  shows "awaiting_send (write_once_run w os)"
  using assms
proof (induction os arbitrary: w)
  case Nil
  then show ?case by (simp add: write_once_run_Nil)
next
  case (Cons x os)
  from Cons.prems(1) have x: "x \<noteq> SendAcknowledged" and os: "SendAcknowledged \<notin> set os"
    by auto
  have "awaiting_send (write_once_step w x)"
    using x Cons.prems(2) by (cases x) simp_all
  with Cons.IH [OF os] show ?case by (simp add: write_once_run_Cons)
qed

lemma WriteOnceToRelay_sel:
  "timer_set (WriteOnceToRelay address ev)" "\<not> awaiting_send (WriteOnceToRelay address ev)"
  "wo_promise (WriteOnceToRelay address ev) = Pending"
  "wo_event (WriteOnceToRelay address ev) = ev"
  "wo_connection (WriteOnceToRelay address ev)
     = new_Connection address \<lparr>read_s = False, write_s = True\<rparr> True"
  "wo_calls (WriteOnceToRelay address ev)
     = [NewConnection (new_Connection address \<lparr>read_s = False, write_s = True\<rparr> True),
        Connect (new_Connection address \<lparr>read_s = False, write_s = True\<rparr> True)]"
  by (simp_all add: WriteOnceToRelay_def Let_def)

text \<open>
  Claim C6, as stated, fails.  The timer is cleared when the connection signals
  \<open>OnConnected\<close>.  When the connection connects and the five seconds then elapse without
  an acknowledgment, the call is still pending, not rejected; an acknowledgment that
  arrives after the five seconds resolves it.
\<close>

theorem C6_timeout_counterexample:
  "wo_promise (write_once_run (WriteOnceToRelay ''wss://relay.example/'' example_event)
                 [OnConnected, FiveSecondsElapsed]) = Pending \<and>
   wo_promise (write_once_run (WriteOnceToRelay ''wss://relay.example/'' example_event)
                 [OnConnected, FiveSecondsElapsed, SendAcknowledged]) = Resolved"
  by (simp add: write_once_run_def WriteOnceToRelay_def Let_def settle_def)

text \<open>
  Claim C6, as amended.  \<open>WriteOnceToRelay\<close> constructs an ephemeral write-only connection,
  sets the five-second timer and calls \<open>Connect\<close>; the call is pending.  When the
  connection has not signalled \<open>OnConnected\<close> by the time the five seconds elapse, the call
  is rejected, with no reason, and stays so.  When it signals \<open>OnConnected\<close> before the five
  seconds elapse, the timer is cleared and the call is never rejected (it is pending or
  resolved); once the send is acknowledged, whether or not five seconds have passed
  meanwhile, the call is resolved.
  The run in which the connection connects and the send is acknowledged makes, in this
  order, the calls: construct, \<open>Connect\<close>, \<open>SendAsync\<close> of the event, \<open>Close\<close>.
\<close>

theorem C6_write_once:
  "wo_connection (WriteOnceToRelay address ev)
     = new_Connection address \<lparr>read_s = False, write_s = True\<rparr> True \<and>
   wo_calls (WriteOnceToRelay address ev)
     = [NewConnection (wo_connection (WriteOnceToRelay address ev)),
        Connect (wo_connection (WriteOnceToRelay address ev))] \<and>
   wo_promise (WriteOnceToRelay address ev) = Pending \<and>
   (OnConnected \<notin> set pre \<longrightarrow>
      wo_promise (write_once_run (WriteOnceToRelay address ev) (pre @ FiveSecondsElapsed # post))
        = Rejected None) \<and>
   (FiveSecondsElapsed \<notin> set pre \<longrightarrow>
      wo_promise (write_once_run (WriteOnceToRelay address ev) (pre @ OnConnected # post))
        \<in> {Pending, Resolved}) \<and>
   (FiveSecondsElapsed \<notin> set pre \<and> SendAcknowledged \<notin> set mid \<longrightarrow>
      wo_promise (write_once_run (WriteOnceToRelay address ev)
                    (pre @ OnConnected # mid @ SendAcknowledged # post))
        = Resolved) \<and>
   wo_calls (write_once_run (WriteOnceToRelay address ev) [OnConnected, SendAcknowledged])
     = [NewConnection (wo_connection (WriteOnceToRelay address ev)),
        Connect (wo_connection (WriteOnceToRelay address ev)),
        SendAsync (wo_connection (WriteOnceToRelay address ev)) ev,
        Close (wo_connection (WriteOnceToRelay address ev))]"
proof -
  define w0 where "w0 = WriteOnceToRelay address ev"
  have rejected: "wo_promise (write_once_run w0 (pre @ FiveSecondsElapsed # post)) = Rejected None"
    if "OnConnected \<notin> set pre"
  proof -
    define w1 where "w1 = write_once_run w0 pre"
    have i: "wo_promise w1 = (if timer_set w1 then Pending else Rejected None)"
      unfolding w1_def w0_def
      using that by (intro conjunct2 [OF not_connected_invariant]) (simp_all add: WriteOnceToRelay_sel)
    have "wo_promise (write_once_step w1 FiveSecondsElapsed) = Rejected None"
      using i by (simp add: settle_def)
    then have "wo_promise (write_once_run (write_once_step w1 FiveSecondsElapsed) post) = Rejected None"
      by (simp add: settled_stays)
    then show ?thesis by (simp add: write_once_run_append write_once_run_Cons w1_def)
  qed
  have connected: "\<not> timer_set (write_once_step (write_once_run w0 pre) OnConnected) \<and>
       awaiting_send (write_once_step (write_once_run w0 pre) OnConnected) \<and>
       wo_promise (write_once_step (write_once_run w0 pre) OnConnected) \<in> {Pending, Resolved}"
    if "FiveSecondsElapsed \<notin> set pre"
  proof -
    have "wo_promise (write_once_run w0 pre) \<in> {Pending, Resolved}"
      unfolding w0_def using that by (intro not_elapsed_invariant) (simp_all add: WriteOnceToRelay_sel)
    then show ?thesis by simp
  qed
  have never: "wo_promise (write_once_run w0 (pre @ OnConnected # post)) \<in> {Pending, Resolved}"
    if "FiveSecondsElapsed \<notin> set pre"
    using timer_cleared_invariant [of "write_once_step (write_once_run w0 pre) OnConnected" post]
      connected [OF that]
    by (simp add: write_once_run_append write_once_run_Cons)
  have resolved:
    "wo_promise (write_once_run w0 (pre @ OnConnected # mid @ SendAcknowledged # post)) = Resolved"
    if "FiveSecondsElapsed \<notin> set pre \<and> SendAcknowledged \<notin> set mid"
  proof -
    define w1 where "w1 = write_once_step (write_once_run w0 pre) OnConnected"
    define w2 where "w2 = write_once_run w1 mid"
    have c: "\<not> timer_set w1" "awaiting_send w1" "wo_promise w1 \<in> {Pending, Resolved}"
      using connected that by (simp_all add: w1_def)
    have a: "awaiting_send w2"
      unfolding w2_def using that c(2) by (intro awaiting_invariant) simp_all
    have n: "wo_promise w2 \<in> {Pending, Resolved}"
      unfolding w2_def using timer_cleared_invariant [OF c(1,3)] by simp
    have "wo_promise (write_once_step w2 SendAcknowledged) = Resolved"
      using a n by (cases "wo_promise w2") (simp_all add: settle_def)
    then have "wo_promise (write_once_run (write_once_step w2 SendAcknowledged) post) = Resolved"
      by (simp add: settled_stays)
    then show ?thesis
      by (simp add: write_once_run_append write_once_run_Cons w2_def w1_def)
  qed
  have calls: "wo_calls (write_once_run w0 [OnConnected, SendAcknowledged])
     = [NewConnection (wo_connection w0), Connect (wo_connection w0),
        SendAsync (wo_connection w0) ev, Close (wo_connection w0)]"
    by (simp add: w0_def write_once_run_def WriteOnceToRelay_def Let_def)
  show ?thesis
    using rejected never resolved calls
    unfolding w0_def by (simp add: WriteOnceToRelay_sel)
qed

theorem C6_write_once_witness:
  "OnConnected \<notin> set [SendAcknowledged] \<and>
   wo_promise (write_once_run (WriteOnceToRelay ''wss://relay.example/'' example_event)
                 ([SendAcknowledged] @ FiveSecondsElapsed # [OnConnected, SendAcknowledged]))
     = Rejected None \<and>
   FiveSecondsElapsed \<notin> set ([] :: occurrence list) \<and>
   SendAcknowledged \<notin> set [FiveSecondsElapsed] \<and>
   wo_promise (write_once_run (WriteOnceToRelay ''wss://relay.example/'' example_event)
                 ([] @ OnConnected # [FiveSecondsElapsed]))
     \<in> {Pending, Resolved} \<and>
   wo_promise (write_once_run (WriteOnceToRelay ''wss://relay.example/'' example_event)
                 ([] @ OnConnected # [FiveSecondsElapsed] @ SendAcknowledged # []))
     = Resolved"
proof -
  have h: "OnConnected \<notin> set [SendAcknowledged]" "FiveSecondsElapsed \<notin> set ([] :: occurrence list)"
    "SendAcknowledged \<notin> set [FiveSecondsElapsed]"
    by simp_all
  note a = C6_write_once [of "''wss://relay.example/''" example_event "[SendAcknowledged]"
      "[OnConnected, SendAcknowledged]" "[]"]
  note b = C6_write_once [of "''wss://relay.example/''" example_event "[]"
      "[FiveSecondsElapsed]" "[FiveSecondsElapsed]"]
  note c = C6_write_once [of "''wss://relay.example/''" example_event "[]" "[]"
      "[FiveSecondsElapsed]"]
  have 1: "wo_promise (write_once_run (WriteOnceToRelay ''wss://relay.example/'' example_event)
                 ([SendAcknowledged] @ FiveSecondsElapsed # [OnConnected, SendAcknowledged]))
     = Rejected None"
    using a h(1) by blast
  have 2: "wo_promise (write_once_run (WriteOnceToRelay ''wss://relay.example/'' example_event)
                 ([] @ OnConnected # [FiveSecondsElapsed])) \<in> {Pending, Resolved}"
    using b h(2) by blast
  have 3: "wo_promise (write_once_run (WriteOnceToRelay ''wss://relay.example/'' example_event)
                 ([] @ OnConnected # [FiveSecondsElapsed] @ SendAcknowledged # [])) = Resolved"
    using c h(2,3) by blast
  from h 1 2 3 show ?thesis by blast
qed

section \<open>An unchanged request under release\<close>

lemma self_release_then_other:
  assumes "stateHooks s = [a, b]" and "cb_releases a = [cb_id a]"
  shows "changed_sys s =
         s\<lparr>snapshot := snapshot_of (Queries s), calls := calls s @ [Notify (cb_id a)],
           stateHooks := [b]\<rparr>"
proof -
  define s0 where "s0 = s\<lparr>snapshot := snapshot_of (Queries s)\<rparr>"
  define s1 where "s1 = s0\<lparr>calls := calls s @ [Notify (cb_id a)], stateHooks := [b]\<rparr>"
  have r: "release (cb_id a) [a, b] = [b]"
    using release_registered_once [of a "[]" "[b]"] by simp
  have c: "call_hook a s0 = s1"
    by (simp add: call_hook_def s0_def s1_def assms r)
  have "notify_from 0 s0 = notify_from (Suc 0) s1"
    by (subst notify_from.simps) (simp add: s0_def assms c [unfolded s0_def])
  also have "\<dots> = s1" by (rule notify_from_end) (simp add: s1_def)
  finally show ?thesis by (simp add: changed_sys_def s0_def s1_def)
qed

lemma example_system_two_hooks_sel:
  "Queries example_system_two_hooks = [(''abc'', example_query)]"
  "stateHooks example_system_two_hooks = [example_self_releasing_hook, example_other_hook]"
  "calls example_system_two_hooks = []"
  by (simp_all add: example_system_two_hooks_def example_system_sel)

text \<open>
  Claim C10, as stated, fails.  In the example system with two hooks, the first of which
  releases itself when it is called, a request for the registered id with the stored
  filters and without \<open>skipDiff\<close> calls the first hook only: the second hook is registered,
  stays registered, and is not notified.  And when the query was closing, the request
  un-cancels it: the registry after the request is not the registry before it.
\<close>

theorem C10_every_observer_counterexample:
  "Map_get (Queries example_system_two_hooks) (rb_id example_request) = Some example_query \<and>
   filters example_query = build example_request \<and>
   \<not> skipDiff example_request \<and>
   stateHooks example_system_two_hooks = [example_self_releasing_hook, example_other_hook] \<and>
   calls example_system_two_hooks = [] \<and>
   calls (snd (QueryReq \<lparr>loading = False\<rparr> (Some example_request) example_system_two_hooks))
     = [Notify (cb_id example_self_releasing_hook)] \<and>
   Notify (cb_id example_other_hook)
     \<notin> set (calls (snd (QueryReq \<lparr>loading = False\<rparr> (Some example_request)
                          example_system_two_hooks))) \<and>
   stateHooks (snd (QueryReq \<lparr>loading = False\<rparr> (Some example_request) example_system_two_hooks))
     = [example_other_hook] \<and>
   Map_get (Queries (CancelQuery 1000 example_system ''abc'')) (rb_id example_request)
     = Some (cancel 1000 example_query) \<and>
   filters (cancel 1000 example_query) = build example_request \<and>
   Queries (snd (QueryReq \<lparr>loading = False\<rparr> (Some example_request)
                  (CancelQuery 1000 example_system ''abc'')))
     \<noteq> Queries (CancelQuery 1000 example_system ''abc'')"
proof -
  have h1: "Map_get (Queries example_system_two_hooks) (rb_id example_request)
              = Some example_query"
    by (simp add: example_system_two_hooks_sel example_request_def Map_get_def)
  have h2: "filters example_query = build example_request"
    by (simp add: example_query_sel example_request_def)
  have h3: "\<not> skipDiff example_request"
    by (simp add: skipDiff_def example_request_def)
  have u: "unCancel example_query = example_query"
    by (simp add: unCancel_def example_query_def new_Query_def)
  have n: "cb_id example_self_releasing_hook \<noteq> cb_id example_other_hook"
    by (simp add: example_self_releasing_hook_def example_other_hook_def)
  define s1 where
    "s1 = example_system_two_hooks
            \<lparr>Queries := Map_set (Queries example_system_two_hooks) (rb_id example_request)
                          (unCancel example_query)\<rparr>"
  have r: "snd (QueryReq \<lparr>loading = False\<rparr> (Some example_request) example_system_two_hooks)
             = changed_sys s1"
    unfolding s1_def by (simp add: QueryReq_unchanged [OF h1 h2 h3])
  have hk: "stateHooks s1 = [example_self_releasing_hook, example_other_hook]" "calls s1 = []"
    by (simp_all add: s1_def example_system_two_hooks_sel)
  have round: "changed_sys s1 =
      s1\<lparr>snapshot := snapshot_of (Queries s1),
         calls := calls s1 @ [Notify (cb_id example_self_releasing_hook)],
         stateHooks := [example_other_hook]\<rparr>"
    by (rule self_release_then_other [OF hk(1) example_self_releasing_hook_releases])
  have a: "calls (changed_sys s1) = [Notify (cb_id example_self_releasing_hook)]"
    "stateHooks (changed_sys s1) = [example_other_hook]"
    by (simp_all add: round hk)
  have b: "Notify (cb_id example_other_hook) \<notin> set (calls (changed_sys s1))"
    using n by (simp add: a)
  have g1: "Map_get (Queries (CancelQuery 1000 example_system ''abc'')) (rb_id example_request)
              = Some (cancel 1000 example_query)"
    by (simp add: example_cancelled example_request_def Map_get_def)
  have g2: "filters (cancel 1000 example_query) = build example_request"
    by (simp add: cancel_def example_query_sel example_request_def)
  have c1: "cancel 1000 example_query \<noteq> example_query"
    by (simp add: cancel_def example_query_def new_Query_def)
  have "Queries (snd (QueryReq \<lparr>loading = False\<rparr> (Some example_request)
                        (CancelQuery 1000 example_system ''abc'')))
          = [(''abc'', unCancel (cancel 1000 example_query))]"
    by (simp add: QueryReq_unchanged [OF g1 g2 h3] changed_sys_frame)
       (simp add: example_cancelled example_request_def)
  moreover have "unCancel (cancel 1000 example_query) = example_query"
    by (simp add: unCancel_def cancel_def example_query_def new_Query_def)
  ultimately have d: "Queries (snd (QueryReq \<lparr>loading = False\<rparr> (Some example_request)
                        (CancelQuery 1000 example_system ''abc'')))
          \<noteq> Queries (CancelQuery 1000 example_system ''abc'')"
    using c1 by (simp add: example_cancelled)
  show ?thesis
    unfolding r using h1 h2 h3 a b g1 g2 d by (simp add: example_system_two_hooks_sel)
qed

end
